theory Spec2Isabelle
  imports Main "HOL-Library.Word"
begin

unbundle bit_operations_syntax

section \<open>The board model of \<^verbatim>\<open>minesweeper.py\<close>\<close>

text \<open>
  Cell states are Python integers used as bit sets, so they are modelled as \<^typ>\<open>int\<close>
  with the bitwise operations of HOL. A position is a pair of integers. The two
  dictionaries of a board (\<^verbatim>\<open>grid\<close> and \<^verbatim>\<open>hints\<close>) are maps; a lookup of a missing
  key raises \<^verbatim>\<open>KeyError\<close>.
\<close>

definition SAFE :: int where "SAFE = 0"
definition MINE :: int where "MINE = 1"
definition FLAGGED :: int where "FLAGGED = 2"
definition OPEN :: int where "OPEN = 4"
definition OPEN_MINE :: int where "OPEN_MINE = MINE OR OPEN"

type_synonym pos = "int \<times> int"

datatype error = KeyError

record board =
  grid :: "pos \<rightharpoonup> int"
  mines_left :: int
  hints :: "pos \<rightharpoonup> int"
  cols :: int
  lines :: int
  last_clicked :: "int option"
  cells_revealed :: int
  safe_cells :: int

text \<open>
  A method either returns or raises; in both cases the board object has been mutated
  up to that point, so both outcomes carry the board.
\<close>

datatype outcome = Returned board | Raised error board

fun board_of :: "outcome \<Rightarrow> board" where
  "board_of (Returned b) = b"
| "board_of (Raised e b) = b"

text \<open>\<^verbatim>\<open>__init__\<close>\<close>

definition init :: "(pos \<rightharpoonup> int) \<Rightarrow> int \<Rightarrow> int \<Rightarrow> int \<Rightarrow> board" where
  "init g mines c l =
     \<lparr>grid = g, mines_left = mines, hints = Map.empty, cols = c, lines = l,
      last_clicked = None, cells_revealed = 0, safe_cells = c * l - mines\<rparr>"

text \<open>
  \<^verbatim>\<open>random\<close>: \<^verbatim>\<open>cells\<close> is \<^verbatim>\<open>itertools.product(range(cols), range(lines))\<close>. The outcome
  of \<^verbatim>\<open>random.sample(cells, num_of_mines)\<close> is the parameter \<open>mines\<close>: a list of
  \<open>num_of_mines\<close> distinct cells.
\<close>

definition cells :: "int \<Rightarrow> int \<Rightarrow> pos list" where
  "cells c l = concat (map (\<lambda>x. map (\<lambda>y. (x, y)) [0..l - 1]) [0..c - 1])"

definition sample_ok :: "int \<Rightarrow> int \<Rightarrow> pos list \<Rightarrow> bool" where
  "sample_ok c l mines \<longleftrightarrow> distinct mines \<and> set mines \<subseteq> set (cells c l)"

definition random_board :: "int \<Rightarrow> int \<Rightarrow> pos list \<Rightarrow> board" where
  "random_board c l mines =
     init (\<lambda>p. if p \<in> set (cells c l) then Some (if p \<in> set mines then MINE else SAFE) else None)
          (int (length mines)) c l"

text \<open>\<^verbatim>\<open>__getitem__\<close> (\<open>None\<close> is the \<^verbatim>\<open>KeyError\<close>) and \<^verbatim>\<open>__setitem__\<close>\<close>

definition getitem :: "board \<Rightarrow> pos \<Rightarrow> int option" where
  "getitem b key = grid b key"

definition setitem :: "board \<Rightarrow> pos \<Rightarrow> int \<Rightarrow> board" where
  "setitem b key v = b\<lparr>grid := (grid b)(key \<mapsto> v)\<rparr>"

text \<open>
  \<^verbatim>\<open>get_neighbors\<close>: the offsets are unpacked as \<^verbatim>\<open>dy, dx\<close>, in the order of the source.
\<close>

definition offsets :: "(int \<times> int) list" where
  "offsets = [(-1, -1), (-1, 0), (-1, 1), (0, -1), (0, 1), (1, -1), (1, 0), (1, 1)]"

definition get_neighbors :: "board \<Rightarrow> pos \<Rightarrow> pos list" where
  "get_neighbors b position =
     (case position of (x, y) \<Rightarrow>
        map (\<lambda>(dy, dx). (x + dx, y + dy))
          (filter (\<lambda>(dy, dx). 0 \<le> x + dx \<and> x + dx < cols b \<and> 0 \<le> y + dy \<and> y + dy < lines b)
             offsets))"

text \<open>
  \<^verbatim>\<open>sum(self[pos] & _MINE == _MINE for pos in neighbors)\<close>; \<open>None\<close> when a lookup
  raises \<^verbatim>\<open>KeyError\<close>.
\<close>

fun mines_nearby :: "board \<Rightarrow> pos list \<Rightarrow> int option" where
  "mines_nearby b [] = Some 0"
| "mines_nearby b (q # qs) =
     (case getitem b q of
        None \<Rightarrow> None
      | Some s \<Rightarrow>
          (case mines_nearby b qs of
             None \<Rightarrow> None
           | Some k \<Rightarrow> Some ((if s AND MINE = MINE then 1 else 0) + k)))"

text \<open>
  \<^verbatim>\<open>flag\<close>: the augmented assignments read the cell again; the \<^verbatim>\<open>elif\<close> reads the
  value that was just stored.
\<close>

definition flag :: "board \<Rightarrow> pos \<Rightarrow> int \<Rightarrow> outcome" where
  "flag b position state =
     (case getitem b position of
        None \<Rightarrow> Raised KeyError b
      | Some v \<Rightarrow>
          let v' = (if state AND FLAGGED = FLAGGED then v XOR FLAGGED else v OR FLAGGED);
              b1 = setitem b position v'
          in if state = MINE then Returned (b1\<lparr>mines_left := mines_left b1 - 1\<rparr>)
             else if v' = MINE then Returned (b1\<lparr>mines_left := mines_left b1 + 1\<rparr>)
             else Returned b1)"

text \<open>
  \<^verbatim>\<open>action\<close> and \<^verbatim>\<open>reveal\<close> call each other, and \<^verbatim>\<open>reveal\<close> calls \<^verbatim>\<open>action\<close> in a loop
  over the neighbours (\<open>action_each\<close>). The first argument bounds the depth of nested
  \<^verbatim>\<open>action\<close> calls; \<open>None\<close> means that this depth did not suffice.
\<close>

function (sequential) action :: "nat \<Rightarrow> board \<Rightarrow> pos \<Rightarrow> bool \<Rightarrow> outcome option"
  and reveal :: "nat \<Rightarrow> board \<Rightarrow> pos \<Rightarrow> int \<Rightarrow> outcome option"
  and action_each :: "nat \<Rightarrow> board \<Rightarrow> pos list \<Rightarrow> outcome option"
where
  "action 0 b position flg = None"
| "action (Suc n) b position flg =
     (case getitem b position of
        None \<Rightarrow> Some (Raised KeyError b)
      | Some state \<Rightarrow>
          if state = OPEN then Some (Returned b)
          else if flg then Some (flag b position state)
          else if state AND FLAGGED = FLAGGED then Some (Returned b)
          else reveal n b position state)"
| "reveal n b position state =
     (let b1 = b\<lparr>last_clicked := Some state\<rparr> in
      case getitem b1 position of
        None \<Rightarrow> Some (Raised KeyError b1)
      | Some v \<Rightarrow>
          let b2 = setitem b1 position (v OR OPEN) in
          if state = MINE then Some (Returned b2)
          else
            let b3 = b2\<lparr>cells_revealed := cells_revealed b2 + 1\<rparr>;
                neighbors = get_neighbors b3 position
            in case mines_nearby b3 neighbors of
                 None \<Rightarrow> Some (Raised KeyError b3)
               | Some k \<Rightarrow>
                   let b4 = b3\<lparr>hints := (hints b3)(position := Some k)\<rparr>
                   in if k = 0 then action_each n b4 neighbors else Some (Returned b4))"
| "action_each n b [] = Some (Returned b)"
| "action_each n b (neighbor # rest) =
     (case action n b neighbor False of
        None \<Rightarrow> None
      | Some (Raised e b') \<Rightarrow> Some (Raised e b')
      | Some (Returned b') \<Rightarrow> action_each n b' rest)"
  by pat_completeness auto

termination
  by (relation "measures
        [\<lambda>x. case x of Inl (n, _) \<Rightarrow> 2 * n | Inr (Inl (n, _)) \<Rightarrow> 2 * n + 1 | Inr (Inr (n, _)) \<Rightarrow> 2 * n + 1,
         \<lambda>x. case x of Inl _ \<Rightarrow> 0 | Inr (Inl _) \<Rightarrow> 1 | Inr (Inr _) \<Rightarrow> 0,
         \<lambda>x. case x of Inl _ \<Rightarrow> 0 | Inr (Inl _) \<Rightarrow> 0 | Inr (Inr (n, b, qs)) \<Rightarrow> length qs]")
     auto

text \<open>
  \<^verbatim>\<open>open_mines\<close>: the loop visits every item of the grid once and stores only under
  the key it visits.
\<close>

definition open_mines :: "board \<Rightarrow> board" where
  "open_mines b =
     b\<lparr>grid := (\<lambda>position. case grid b position of
                  None \<Rightarrow> None
                | Some state \<Rightarrow> Some (if state AND MINE = MINE then OPEN_MINE else state))\<rparr>"

text \<open>A finite sequence of \<^verbatim>\<open>action\<close> calls on the same board object.\<close>

fun actions :: "nat \<Rightarrow> board \<Rightarrow> (pos \<times> bool) list \<Rightarrow> outcome option" where
  "actions n b [] = Some (Returned b)"
| "actions n b ((position, flg) # rest) =
     (case action n b position flg of
        None \<Rightarrow> None
      | Some (Raised e b') \<Rightarrow> Some (Raised e b')
      | Some (Returned b') \<Rightarrow> actions n b' rest)"

section \<open>Notions used in the statements\<close>

text \<open>The positions inside the bounds that \<^verbatim>\<open>get_neighbors\<close> checks.\<close>

definition box :: "board \<Rightarrow> pos set" where
  "box b = {0..<cols b} \<times> {0..<lines b}"

text \<open>A cell state is a bit set over the three flags and nothing else.\<close>

definition valid_state :: "int \<Rightarrow> bool" where
  "valid_state s \<longleftrightarrow> s AND (MINE OR FLAGGED OR OPEN) = s"

definition valid_states :: "board \<Rightarrow> bool" where
  "valid_states b \<longleftrightarrow> (\<forall>p s. grid b p = Some s \<longrightarrow> valid_state s)"

text \<open>Every position inside the bounds is a key of the grid, and no other.\<close>

definition wf_board :: "board \<Rightarrow> bool" where
  "wf_board b \<longleftrightarrow> valid_states b \<and> dom (grid b) = box b"

text \<open>The closed, unflagged, unmined cells: the cells a reveal can still count.\<close>

definition closed_safe :: "board \<Rightarrow> pos set" where
  "closed_safe b = {q \<in> box b. grid b q = Some SAFE}"

text \<open>A cell none of whose neighbours carries the \<^verbatim>\<open>MINE\<close> bit.\<close>

definition zero_hint :: "board \<Rightarrow> pos \<Rightarrow> bool" where
  "zero_hint b q \<longleftrightarrow> mines_nearby b (get_neighbors b q) = Some 0"

text \<open>
  The cells that a reveal of \<open>p\<close> reaches: \<open>p\<close> itself, and every closed unflagged
  neighbour of a reached cell without mined neighbours.
\<close>

inductive_set cascade :: "board \<Rightarrow> pos \<Rightarrow> pos set" for b :: board and p :: pos where
  start: "grid b p = Some SAFE \<Longrightarrow> p \<in> cascade b p"
| step: "x \<in> cascade b p \<Longrightarrow> zero_hint b x \<Longrightarrow> y \<in> set (get_neighbors b x) \<Longrightarrow>
         grid b y = Some SAFE \<Longrightarrow> y \<in> cascade b p"

text \<open>
  The connected zero-hint region of \<open>p\<close>, and that region with the ring of cells that
  border it.
\<close>

inductive_set zero_region :: "board \<Rightarrow> pos \<Rightarrow> pos set" for b :: board and p :: pos where
  origin: "zero_hint b p \<Longrightarrow> p \<in> zero_region b p"
| extend: "x \<in> zero_region b p \<Longrightarrow> y \<in> set (get_neighbors b x) \<Longrightarrow> zero_hint b y \<Longrightarrow>
           y \<in> zero_region b p"

definition region_with_ring :: "board \<Rightarrow> pos \<Rightarrow> pos set" where
  "region_with_ring b p =
     zero_region b p \<union> {y. \<exists>x \<in> zero_region b p. y \<in> set (get_neighbors b x)}"

text \<open>No cell has been flagged or opened yet.\<close>

definition fresh :: "board \<Rightarrow> bool" where
  "fresh b \<longleftrightarrow> (\<forall>q s. grid b q = Some s \<longrightarrow> s = SAFE \<or> s = MINE)"

text \<open>
  The board at the three stages of \<^verbatim>\<open>reveal\<close>: after the cell has been opened, after
  \<^verbatim>\<open>cells_revealed\<close> has been incremented, and after the hint has been stored.
\<close>

definition opened :: "board \<Rightarrow> pos \<Rightarrow> int \<Rightarrow> int \<Rightarrow> board" where
  "opened b p state v = b\<lparr>last_clicked := Some state, grid := (grid b)(p \<mapsto> v OR OPEN)\<rparr>"

definition counted :: "board \<Rightarrow> pos \<Rightarrow> int \<Rightarrow> int \<Rightarrow> board" where
  "counted b p state v = (opened b p state v)\<lparr>cells_revealed := cells_revealed b + 1\<rparr>"

definition hinted :: "board \<Rightarrow> pos \<Rightarrow> int \<Rightarrow> int \<Rightarrow> int \<Rightarrow> board" where
  "hinted b p state v k = (counted b p state v)\<lparr>hints := (hints b)(p \<mapsto> k)\<rparr>"

text \<open>
  \<open>b'\<close> differs from \<open>b\<close> at most by reveals: cells have been opened, and the fields
  that \<^verbatim>\<open>reveal\<close> assigns may differ.
\<close>

definition unveils :: "board \<Rightarrow> board \<Rightarrow> bool" where
  "unveils b b' \<longleftrightarrow>
     cols b' = cols b \<and> lines b' = lines b \<and> safe_cells b' = safe_cells b \<and>
     mines_left b' = mines_left b \<and>
     (\<forall>q. grid b' q = grid b q \<or> (\<exists>v. grid b q = Some v \<and> grid b' q = Some (v OR OPEN)))"

text \<open>
  \<^verbatim>\<open>last_clicked\<close> of \<open>b'\<close> is that of \<open>b\<close>, or a state without the \<^verbatim>\<open>MINE\<close> bit.
\<close>

definition signal_kept :: "board \<Rightarrow> board \<Rightarrow> bool" where
  "signal_kept b b' \<longleftrightarrow>
     last_clicked b' = last_clicked b \<or> (\<exists>t. last_clicked b' = Some t \<and> t AND MINE \<noteq> MINE)"

text \<open>Boards used as concrete inputs.\<close>

definition single_mine :: board where
  "single_mine = random_board 1 1 [(0, 0)]"

definition center_mine :: board where
  "center_mine = random_board 3 3 [(1, 1)]"

definition row_mine :: board where
  "row_mine = random_board 5 1 [(4, 0)]"

definition pair_mine :: board where
  "pair_mine = random_board 2 1 [(0, 0)]"

section \<open>Bits of a cell state\<close>

lemmas flag_defs = SAFE_def MINE_def FLAGGED_def OPEN_def OPEN_MINE_def

lemmas int_bit_eq = bit_eq_iff [where ?'a = int]

lemma bit_two_int: "bit (2::int) n \<longleftrightarrow> n = 1"
  by (cases n) (simp_all add: bit_Suc bit_0 bit_1_iff)

lemma bit_four_int: "bit (4::int) n \<longleftrightarrow> n = 2"
proof (cases n)
  case 0
  then show ?thesis by (simp add: bit_0)
next
  case (Suc m)
  then show ?thesis using bit_two_int [of m] by (simp add: bit_Suc)
qed

lemmas bit_flag_simps = bit_and_iff bit_or_iff bit_xor_iff bit_1_iff bit_two_int bit_four_int

lemma has_MINE: "s AND MINE = MINE \<longleftrightarrow> bit s 0"
  by (auto simp add: MINE_def int_bit_eq bit_flag_simps)

lemma has_FLAGGED: "s AND FLAGGED = FLAGGED \<longleftrightarrow> bit s 1"
  by (auto simp add: FLAGGED_def int_bit_eq bit_flag_simps)

lemma has_OPEN: "s AND OPEN = OPEN \<longleftrightarrow> bit s 2"
  by (auto simp add: OPEN_def int_bit_eq bit_flag_simps)

lemma eq_SAFE: "s = SAFE \<longleftrightarrow> (\<forall>n. \<not> bit s n)"
  by (auto simp add: SAFE_def int_bit_eq)

lemma eq_MINE: "s = MINE \<longleftrightarrow> (\<forall>n. bit s n \<longleftrightarrow> n = 0)"
  by (auto simp add: MINE_def int_bit_eq bit_flag_simps)

lemma eq_OPEN: "s = OPEN \<longleftrightarrow> (\<forall>n. bit s n \<longleftrightarrow> n = 2)"
  by (auto simp add: OPEN_def int_bit_eq bit_flag_simps)

lemma bit_or_OPEN: "bit (s OR OPEN) n \<longleftrightarrow> bit s n \<or> n = 2"
  by (simp add: OPEN_def bit_flag_simps)

lemma bit_or_FLAGGED: "bit (s OR FLAGGED) n \<longleftrightarrow> bit s n \<or> n = 1"
  by (simp add: FLAGGED_def bit_flag_simps)

lemma bit_xor_FLAGGED: "bit (s XOR FLAGGED) n \<longleftrightarrow> (bit s n \<noteq> (n = 1))"
  by (simp add: FLAGGED_def bit_flag_simps)

lemma bit_all_flags: "bit (MINE OR FLAGGED OR OPEN) n \<longleftrightarrow> n < 3"
  by (auto simp add: flag_defs bit_flag_simps simp del: or_numerals)

lemma valid_state_iff: "valid_state s \<longleftrightarrow> (\<forall>n. bit s n \<longrightarrow> n < 3)"
  unfolding valid_state_def int_bit_eq bit_and_iff bit_all_flags by auto

lemma or_OPEN_MINE_bit [simp]: "(s OR OPEN) AND MINE = MINE \<longleftrightarrow> s AND MINE = MINE"
  by (simp add: has_MINE bit_or_OPEN)

lemma or_OPEN_idem [simp]: "(s OR OPEN) OR OPEN = s OR OPEN"
  by (simp add: int_bit_eq bit_or_OPEN bit_or_iff)

lemma or_OPEN_not_SAFE [simp]: "s OR OPEN \<noteq> SAFE"
  by (auto simp add: eq_SAFE bit_or_OPEN)

lemma valid_or_OPEN: "valid_state s \<Longrightarrow> valid_state (s OR OPEN)"
  by (auto simp add: valid_state_iff bit_or_OPEN)

lemma SAFE_or_OPEN [simp]: "SAFE OR OPEN = OPEN"
  by (simp add: flag_defs)

lemma MINE_or_OPEN [simp]: "MINE OR OPEN = OPEN_MINE"
  by (simp add: flag_defs)

text \<open>The only valid state without a mine that \<^verbatim>\<open>action\<close> passes on to \<^verbatim>\<open>reveal\<close>.\<close>

lemma revealed_state_SAFE:
  assumes "valid_state s" "s AND MINE \<noteq> MINE" "s \<noteq> OPEN" "s AND FLAGGED \<noteq> FLAGGED"
  shows "s = SAFE"
proof -
  have v: "\<forall>n. bit s n \<longrightarrow> n < 3" and m: "\<not> bit s 0" and f: "\<not> bit s 1"
    using assms by (simp_all add: valid_state_iff has_MINE has_FLAGGED)
  have b: "n = 2" if "bit s n" for n
  proof -
    from v that have "n < 3" by simp
    moreover have "n \<noteq> 0"
    proof
      assume "n = 0"
      with that m show False by simp
    qed
    moreover have "n \<noteq> 1"
    proof
      assume "n = 1"
      with that f show False by simp
    qed
    ultimately show ?thesis by arith
  qed
  show ?thesis
  proof (cases "bit s 2")
    case True
    have "bit s n \<longleftrightarrow> n = 2" for n
    proof
      assume "bit s n" then show "n = 2" by (rule b)
    next
      assume "n = 2" with True show "bit s n" by simp
    qed
    then have "s = OPEN" by (simp only: eq_OPEN simp_thms)
    with assms(3) show ?thesis by simp
  next
    case False
    have "\<not> bit s n" for n
    proof
      assume "bit s n"
      then have "n = 2" by (rule b)
      with \<open>bit s n\<close> False show False by simp
    qed
    then show ?thesis by (simp only: eq_SAFE simp_thms)
  qed
qed

section \<open>Neighbours and mine counts\<close>

lemma get_neighbors_box: "set (get_neighbors b p) \<subseteq> box b"
  by (cases p) (auto simp add: get_neighbors_def box_def)

lemma get_neighbors_cong:
  "cols b' = cols b \<Longrightarrow> lines b' = lines b \<Longrightarrow> get_neighbors b' p = get_neighbors b p"
  by (simp add: get_neighbors_def)

lemma length_get_neighbors: "length (get_neighbors b p) \<le> 8"
proof -
  have "length (get_neighbors b p) \<le> length offsets"
    by (cases p) (simp add: get_neighbors_def)
  then show ?thesis by (simp add: offsets_def)
qed

lemma mines_nearby_cong:
  assumes "\<forall>q \<in> set qs. (grid b' q = None \<longleftrightarrow> grid b q = None) \<and>
    (\<forall>s s'. grid b q = Some s \<longrightarrow> grid b' q = Some s' \<longrightarrow>
       (s' AND MINE = MINE \<longleftrightarrow> s AND MINE = MINE))"
  shows "mines_nearby b' qs = mines_nearby b qs"
  using assms
proof (induction qs)
  case Nil
  then show ?case by simp
next
  case (Cons q qs)
  then have ih: "mines_nearby b' qs = mines_nearby b qs" by simp
  from Cons.prems have q: "(grid b' q = None \<longleftrightarrow> grid b q = None) \<and>
    (\<forall>s s'. grid b q = Some s \<longrightarrow> grid b' q = Some s' \<longrightarrow>
       (s' AND MINE = MINE \<longleftrightarrow> s AND MINE = MINE))" by simp
  show ?case
  proof (cases "grid b q")
    case None
    with q show ?thesis by (simp add: getitem_def)
  next
    case (Some s)
    with q obtain s' where s': "grid b' q = Some s'" by auto
    with q Some have "s' AND MINE = MINE \<longleftrightarrow> s AND MINE = MINE" by simp
    with Some s' ih show ?thesis by (simp add: getitem_def)
  qed
qed

lemma mines_nearby_same_grid:
  "grid b' = grid b \<Longrightarrow> mines_nearby b' qs = mines_nearby b qs"
  by (rule mines_nearby_cong) simp

lemma mines_nearby_Cons_Some:
  "mines_nearby b (q # qs) = Some k \<longleftrightarrow>
     (\<exists>s j. grid b q = Some s \<and> mines_nearby b qs = Some j \<and>
            k = (if s AND MINE = MINE then 1 else 0) + j)"
  by (cases "grid b q"; cases "mines_nearby b qs") (auto simp add: getitem_def)

lemma mines_nearby_bounds:
  "mines_nearby b qs = Some k \<Longrightarrow> 0 \<le> k \<and> k \<le> int (length qs)"
proof (induction qs arbitrary: k)
  case Nil
  then show ?case by simp
next
  case (Cons q qs)
  from Cons.prems obtain s j where j: "mines_nearby b qs = Some j"
    and k: "k = (if s AND MINE = MINE then 1 else 0) + j"
    unfolding mines_nearby_Cons_Some by blast
  from Cons.IH [OF j] k show ?case by simp
qed

lemma mines_nearby_zero:
  "mines_nearby b qs = Some 0 \<Longrightarrow> q \<in> set qs \<Longrightarrow> \<exists>s. grid b q = Some s \<and> s AND MINE \<noteq> MINE"
proof (induction qs)
  case Nil
  then show ?case by simp
next
  case (Cons a qs)
  from Cons.prems(1) obtain s j where a: "grid b a = Some s" and j: "mines_nearby b qs = Some j"
    and sum: "0 = (if s AND MINE = MINE then 1 else 0) + j"
    unfolding mines_nearby_Cons_Some by blast
  from j have "0 \<le> j" by (simp add: mines_nearby_bounds)
  with sum have s: "s AND MINE \<noteq> MINE" and "j = 0" by (simp_all split: if_splits)
  show ?case
  proof (cases "q = a")
    case True
    with a s show ?thesis by simp
  next
    case False
    with Cons.prems(2) have "q \<in> set qs" by simp
    with Cons.IH j \<open>j = 0\<close> show ?thesis by simp
  qed
qed

lemma mines_nearby_defined:
  "\<forall>q \<in> set qs. grid b q \<noteq> None \<Longrightarrow> \<exists>k. mines_nearby b qs = Some k"
proof (induction qs)
  case Nil
  then show ?case by simp
next
  case (Cons q qs)
  then obtain s j where "grid b q = Some s" "mines_nearby b qs = Some j" by auto
  then show ?case by (simp add: getitem_def)
qed

lemma mines_nearby_update_fields [simp]:
  "mines_nearby (b\<lparr>last_clicked := lc\<rparr>) qs = mines_nearby b qs"
  "mines_nearby (b\<lparr>cells_revealed := cr\<rparr>) qs = mines_nearby b qs"
  "mines_nearby (b\<lparr>hints := h\<rparr>) qs = mines_nearby b qs"
  "mines_nearby (b\<lparr>mines_left := ml\<rparr>) qs = mines_nearby b qs"
  by (rule mines_nearby_same_grid, simp)+

lemma get_neighbors_update_fields [simp]:
  "get_neighbors (b\<lparr>last_clicked := lc\<rparr>) p = get_neighbors b p"
  "get_neighbors (b\<lparr>cells_revealed := cr\<rparr>) p = get_neighbors b p"
  "get_neighbors (b\<lparr>hints := h\<rparr>) p = get_neighbors b p"
  "get_neighbors (b\<lparr>mines_left := ml\<rparr>) p = get_neighbors b p"
  "get_neighbors (b\<lparr>grid := g\<rparr>) p = get_neighbors b p"
  by (simp_all add: get_neighbors_def)

section \<open>One step of \<^verbatim>\<open>reveal\<close> and \<^verbatim>\<open>action\<close>\<close>

lemma reveal_eq:
  "reveal n b p state =
     (case grid b p of
        None \<Rightarrow> Some (Raised KeyError (b\<lparr>last_clicked := Some state\<rparr>))
      | Some v \<Rightarrow>
          if state = MINE then Some (Returned (opened b p state v))
          else (case mines_nearby (counted b p state v) (get_neighbors b p) of
                  None \<Rightarrow> Some (Raised KeyError (counted b p state v))
                | Some k \<Rightarrow>
                    if k = 0 then action_each n (hinted b p state v k) (get_neighbors b p)
                    else Some (Returned (hinted b p state v k))))"
  by (simp add: Let_def getitem_def setitem_def opened_def counted_def hinted_def
      split: option.splits)

declare reveal.simps [simp del]

lemma action_eq:
  "action (Suc n) b p f =
     (case grid b p of
        None \<Rightarrow> Some (Raised KeyError b)
      | Some state \<Rightarrow>
          if state = OPEN then Some (Returned b)
          else if f then Some (flag b p state)
          else if state AND FLAGGED = FLAGGED then Some (Returned b)
          else reveal n b p state)"
  by (simp add: getitem_def)

declare action.simps(2) [simp del]

lemma opened_fields [simp]:
  "grid (opened b p state v) = (grid b)(p \<mapsto> v OR OPEN)"
  "last_clicked (opened b p state v) = Some state"
  "cols (opened b p state v) = cols b"
  "lines (opened b p state v) = lines b"
  "hints (opened b p state v) = hints b"
  "mines_left (opened b p state v) = mines_left b"
  "cells_revealed (opened b p state v) = cells_revealed b"
  "safe_cells (opened b p state v) = safe_cells b"
  by (simp_all add: opened_def)

lemma counted_fields [simp]:
  "grid (counted b p state v) = (grid b)(p \<mapsto> v OR OPEN)"
  "last_clicked (counted b p state v) = Some state"
  "cols (counted b p state v) = cols b"
  "lines (counted b p state v) = lines b"
  "hints (counted b p state v) = hints b"
  "mines_left (counted b p state v) = mines_left b"
  "cells_revealed (counted b p state v) = cells_revealed b + 1"
  "safe_cells (counted b p state v) = safe_cells b"
  by (simp_all add: counted_def)

lemma hinted_fields [simp]:
  "grid (hinted b p state v k) = (grid b)(p \<mapsto> v OR OPEN)"
  "last_clicked (hinted b p state v k) = Some state"
  "cols (hinted b p state v k) = cols b"
  "lines (hinted b p state v k) = lines b"
  "hints (hinted b p state v k) = (hints b)(p \<mapsto> k)"
  "mines_left (hinted b p state v k) = mines_left b"
  "cells_revealed (hinted b p state v k) = cells_revealed b + 1"
  "safe_cells (hinted b p state v k) = safe_cells b"
  by (simp_all add: hinted_def)

lemma stage_neighbors [simp]:
  "get_neighbors (opened b p state v) q = get_neighbors b q"
  "get_neighbors (counted b p state v) q = get_neighbors b q"
  "get_neighbors (hinted b p state v k) q = get_neighbors b q"
  by (rule get_neighbors_cong, simp, simp)+

lemma stage_mines_nearby [simp]:
  "mines_nearby (counted b p state v) qs = mines_nearby (opened b p state v) qs"
  "mines_nearby (hinted b p state v k) qs = mines_nearby (opened b p state v) qs"
  by (rule mines_nearby_same_grid, simp)+

text \<open>Opening a cell does not change any mine count.\<close>

lemma mines_nearby_opened [simp]:
  assumes "grid b p = Some v"
  shows "mines_nearby (opened b p state v) qs = mines_nearby b qs"
proof (rule mines_nearby_cong, intro ballI)
  fix q
  show "(grid (opened b p state v) q = None \<longleftrightarrow> grid b q = None) \<and>
    (\<forall>s s'. grid b q = Some s \<longrightarrow> grid (opened b p state v) q = Some s' \<longrightarrow>
       (s' AND MINE = MINE \<longleftrightarrow> s AND MINE = MINE))"
    using assms by (cases "q = p") simp_all
qed

section \<open>Revealing a closed mine\<close>

lemmas board_defs = random_board_def init_def cells_def getitem_def setitem_def get_neighbors_def
  offsets_def flag_def opened_def counted_def hinted_def

text \<open>
  C6. On every board, \<^verbatim>\<open>action(p)\<close> on a cell whose state is exactly \<^verbatim>\<open>MINE\<close> returns
  the board in which that cell is \<^verbatim>\<open>MINE | OPEN\<close> and \<^verbatim>\<open>last_clicked\<close> is \<^verbatim>\<open>MINE\<close>;
  nothing else differs: \<^verbatim>\<open>cells_revealed\<close>, \<^verbatim>\<open>hints\<close>, \<^verbatim>\<open>mines_left\<close> and every other
  cell are as before, so there is no flood fill.
\<close>

theorem reveal_closed_mine:
  assumes "grid b p = Some MINE"
  shows "action (Suc n) b p False =
           Some (Returned (b\<lparr>last_clicked := Some MINE, grid := (grid b)(p \<mapsto> OPEN_MINE)\<rparr>))
         \<and> OPEN_MINE AND MINE = MINE \<and> OPEN_MINE AND OPEN = OPEN"
proof -
  have "MINE \<noteq> OPEN" "MINE AND FLAGGED \<noteq> FLAGGED" "OPEN_MINE AND MINE = MINE"
    "OPEN_MINE AND OPEN = OPEN"
    by (simp_all add: flag_defs)
  with assms show ?thesis
    by (simp add: action_eq reveal_eq opened_def)
qed

theorem reveal_closed_mine_witness:
  "grid (random_board 1 1 [(0, 0)]) (0, 0) = Some MINE \<and>
   action (Suc 0) (random_board 1 1 [(0, 0)]) (0, 0) False =
     Some (Returned ((random_board 1 1 [(0, 0)])
       \<lparr>last_clicked := Some MINE,
        grid := (grid (random_board 1 1 [(0, 0)]))((0, 0) \<mapsto> OPEN_MINE)\<rparr>))"
proof -
  have h: "grid (random_board 1 1 [(0, 0)]) (0, 0) = Some MINE"
    by (simp add: random_board_def init_def cells_def)
  from reveal_closed_mine [OF h, of 0] h show ?thesis by simp
qed

section \<open>Flagging\<close>

lemma flag_toggle_back:
  "(if (if s AND FLAGGED = FLAGGED then s XOR FLAGGED else s OR FLAGGED) AND FLAGGED = FLAGGED
    then (if s AND FLAGGED = FLAGGED then s XOR FLAGGED else s OR FLAGGED) XOR FLAGGED
    else (if s AND FLAGGED = FLAGGED then s XOR FLAGGED else s OR FLAGGED) OR FLAGGED) = s"
proof (cases "bit s 1")
  case True
  then have "\<not> bit (s XOR FLAGGED) 1" by (simp add: bit_xor_FLAGGED)
  moreover from True have "(s XOR FLAGGED) OR FLAGGED = s"
    by (auto simp add: int_bit_eq bit_or_FLAGGED bit_xor_FLAGGED)
  ultimately show ?thesis using True by (simp add: has_FLAGGED)
next
  case False
  then have "bit (s OR FLAGGED) 1" by (simp add: bit_or_FLAGGED)
  moreover from False have "(s OR FLAGGED) XOR FLAGGED = s"
    by (auto simp add: int_bit_eq bit_or_FLAGGED bit_xor_FLAGGED)
  ultimately show ?thesis using False by (simp add: has_FLAGGED)
qed

lemma toggle_keeps_MINE_bit:
  "(if s AND FLAGGED = FLAGGED then s XOR FLAGGED else s OR FLAGGED) AND MINE = MINE
     \<longleftrightarrow> s AND MINE = MINE"
  by (simp add: has_MINE bit_or_FLAGGED bit_xor_FLAGGED)

lemma toggle_keeps_OPEN_bit:
  "(if s AND FLAGGED = FLAGGED then s XOR FLAGGED else s OR FLAGGED) AND OPEN = OPEN
     \<longleftrightarrow> s AND OPEN = OPEN"
  by (simp add: has_OPEN bit_or_FLAGGED bit_xor_FLAGGED)

lemma MINE_bit_not_OPEN: "s AND MINE = MINE \<Longrightarrow> s \<noteq> OPEN"
proof
  assume "s AND MINE = MINE" and "s = OPEN"
  then have "OPEN AND MINE = MINE" by simp
  then show False by (simp add: flag_defs)
qed

lemma not_MINE_bit_not_MINE: "s AND MINE \<noteq> MINE \<Longrightarrow> s \<noteq> MINE"
proof
  assume "s AND MINE \<noteq> MINE" and "s = MINE"
  then have "MINE AND MINE \<noteq> MINE" by simp
  then show False by simp
qed

lemma toggle_differs:
  "(if s AND FLAGGED = FLAGGED then s XOR FLAGGED else s OR FLAGGED) \<noteq> s"
proof
  assume e: "(if s AND FLAGGED = FLAGGED then s XOR FLAGGED else s OR FLAGGED) = s"
  show False
  proof (cases "bit s 1")
    case True
    with e have "s XOR FLAGGED = s" by (simp add: has_FLAGGED)
    then have "bit (s XOR FLAGGED) 1 = bit s 1" by simp
    with True show False by (simp add: bit_xor_FLAGGED)
  next
    case False
    with e have "s OR FLAGGED = s" by (simp add: has_FLAGGED)
    then have "bit (s OR FLAGGED) 1 = bit s 1" by simp
    with False show False by (simp add: bit_or_FLAGGED)
  qed
qed

lemma flag_eq:
  "grid b p = Some v \<Longrightarrow>
   flag b p state =
     Returned (b\<lparr>grid := (grid b)(p \<mapsto> (if state AND FLAGGED = FLAGGED then v XOR FLAGGED else v OR FLAGGED)),
                 mines_left := mines_left b +
                   (if state = MINE then - 1
                    else if (if state AND FLAGGED = FLAGGED then v XOR FLAGGED else v OR FLAGGED) = MINE
                         then 1 else 0)\<rparr>)"
  by (simp add: flag_def getitem_def setitem_def Let_def)

lemma flag_twice:
  assumes "grid b p = Some s" "s AND MINE = MINE"
  shows "\<exists>b1. action (Suc n) b p True = Some (Returned b1) \<and>
              action (Suc m) b1 p True = Some (Returned b)"
proof -
  define t where "t = (if s AND FLAGGED = FLAGGED then s XOR FLAGGED else s OR FLAGGED)"
  define d where "d = (if s = MINE then - 1 else if t = MINE then 1 else (0::int))"
  define b1 where "b1 = b\<lparr>grid := (grid b)(p \<mapsto> t), mines_left := mines_left b + d\<rparr>"
  have undo: "(if t AND FLAGGED = FLAGGED then t XOR FLAGGED else t OR FLAGGED) = s"
    unfolding t_def by (rule flag_toggle_back)
  have "t \<noteq> s" unfolding t_def by (rule toggle_differs)
  have "t AND MINE = MINE" unfolding t_def using assms(2) by (simp only: toggle_keeps_MINE_bit)
  then have "t \<noteq> OPEN" by (rule MINE_bit_not_OPEN)
  from assms(2) have "s \<noteq> OPEN" by (rule MINE_bit_not_OPEN)
  have 1: "action (Suc n) b p True = Some (Returned b1)"
    using assms(1) \<open>s \<noteq> OPEN\<close> by (simp add: action_eq flag_eq [OF assms(1)] b1_def t_def d_def)
  have g1: "grid b1 p = Some t" by (simp add: b1_def)
  have d: "d + (if t = MINE then - 1 else if s = MINE then 1 else 0) = 0"
    using \<open>t \<noteq> s\<close> by (auto simp add: d_def)
  have "flag b1 p t = Returned (b1\<lparr>grid := (grid b1)(p \<mapsto> s),
      mines_left := mines_left b1 + (if t = MINE then - 1 else if s = MINE then 1 else 0)\<rparr>)"
    using flag_eq [OF g1, of t] by (simp only: undo)
  also have "b1\<lparr>grid := (grid b1)(p \<mapsto> s),
      mines_left := mines_left b1 + (if t = MINE then - 1 else if s = MINE then 1 else 0)\<rparr> = b"
  proof -
    have "(grid b)(p \<mapsto> s) = grid b" using assms(1) by (simp add: fun_upd_idem_iff)
    moreover have "mines_left b + d + (if t = MINE then - 1 else if s = MINE then 1 else 0)
      = mines_left b" using d by simp
    ultimately show ?thesis by (simp add: b1_def)
  qed
  finally have "flag b1 p t = Returned b" .
  with g1 \<open>t \<noteq> OPEN\<close> have 2: "action (Suc m) b1 p True = Some (Returned b)"
    by (simp add: action_eq)
  from 1 2 show ?thesis by blast
qed

lemma flag_safe_mines_left:
  assumes "grid b p = Some s" "s AND MINE \<noteq> MINE"
  shows "\<exists>b1. action (Suc n) b p True = Some (Returned b1) \<and> mines_left b1 = mines_left b"
proof (cases "s = OPEN")
  case True
  with assms(1) show ?thesis by (simp add: action_eq)
next
  case False
  from assms(2) have "s \<noteq> MINE" by (rule not_MINE_bit_not_MINE)
  have "(if s AND FLAGGED = FLAGGED then s XOR FLAGGED else s OR FLAGGED) AND MINE \<noteq> MINE"
    using assms(2) by (simp only: toggle_keeps_MINE_bit) simp
  then have "(if s AND FLAGGED = FLAGGED then s XOR FLAGGED else s OR FLAGGED) \<noteq> MINE"
    by (rule not_MINE_bit_not_MINE)
  with assms(1) False \<open>s \<noteq> MINE\<close> show ?thesis
    by (simp add: action_eq flag_eq [OF assms(1)])
qed

text \<open>
  C7. On every board, for a closed mined cell \<open>p\<close> (the \<^verbatim>\<open>MINE\<close> bit set, the \<^verbatim>\<open>OPEN\<close> bit
  not), two successive calls \<^verbatim>\<open>action(p, flag=True)\<close> give back the board they started
  from: the cell's state, \<^verbatim>\<open>mines_left\<close> and everything else. One flag toggle on a cell
  without the \<^verbatim>\<open>MINE\<close> bit leaves \<^verbatim>\<open>mines_left\<close> as it was.
\<close>

theorem flag_unflag_roundtrip:
  "(grid b p = Some s \<and> s AND MINE = MINE \<and> s AND OPEN \<noteq> OPEN \<longrightarrow>
      (\<exists>b1. action (Suc n) b p True = Some (Returned b1) \<and>
            action (Suc m) b1 p True = Some (Returned b))) \<and>
   (grid b p = Some s \<and> s AND MINE \<noteq> MINE \<longrightarrow>
      (\<exists>b1. action (Suc n) b p True = Some (Returned b1) \<and> mines_left b1 = mines_left b))"
  using flag_twice [of b p s n m] flag_safe_mines_left [of b p s n] by blast

theorem flag_unflag_roundtrip_witness:
  "grid (random_board 2 1 [(0, 0)]) (0, 0) = Some MINE \<and> MINE AND MINE = MINE \<and>
   MINE AND OPEN \<noteq> OPEN \<and>
   (\<exists>b1. action (Suc 0) (random_board 2 1 [(0, 0)]) (0, 0) True = Some (Returned b1) \<and>
         action (Suc 0) b1 (0, 0) True = Some (Returned (random_board 2 1 [(0, 0)]))) \<and>
   grid (random_board 2 1 [(0, 0)]) (1, 0) = Some SAFE \<and> SAFE AND MINE \<noteq> MINE \<and>
   (\<exists>b1. action (Suc 0) (random_board 2 1 [(0, 0)]) (1, 0) True = Some (Returned b1) \<and>
         mines_left b1 = mines_left (random_board 2 1 [(0, 0)]))"
proof -
  have m: "grid (random_board 2 1 [(0, 0)]) (0, 0) = Some MINE"
    and s: "grid (random_board 2 1 [(0, 0)]) (1, 0) = Some SAFE"
    by (simp_all add: random_board_def init_def cells_def upto_rec1)
  have c: "MINE AND MINE = MINE" "MINE AND OPEN \<noteq> OPEN" "SAFE AND MINE \<noteq> MINE"
    by (simp_all add: flag_defs)
  from flag_unflag_roundtrip [of "random_board 2 1 [(0, 0)]" "(0, 0)" MINE 0 0]
    flag_unflag_roundtrip [of "random_board 2 1 [(0, 0)]" "(1, 0)" SAFE 0 0] m s c
  show ?thesis by blast
qed

section \<open>Concrete runs\<close>

lemma action_numeral:
  "action (numeral k) b p f =
     (case grid b p of
        None \<Rightarrow> Some (Raised KeyError b)
      | Some state \<Rightarrow>
          if state = OPEN then Some (Returned b)
          else if f then Some (flag b p state)
          else if state AND FLAGGED = FLAGGED then Some (Returned b)
          else reveal (pred_numeral k) b p state)"
  by (simp add: numeral_eq_Suc action_eq)

lemmas run_defs = single_mine_def center_mine_def row_mine_def pair_mine_def random_board_def init_def
  cells_def upto_rec1 flag_defs action_eq action_numeral reveal_eq flag_def getitem_def setitem_def
  get_neighbors_def offsets_def opened_def counted_def hinted_def

lemma single_mine_lost:
  "action (Suc 0) single_mine (0, 0) False =
     Some (Returned (single_mine\<lparr>last_clicked := Some MINE,
                                  grid := (grid single_mine)((0, 0) \<mapsto> OPEN_MINE)\<rparr>))"
  by (simp add: run_defs)

text \<open>
  C1. The claim says that \<^verbatim>\<open>action\<close> is a no-op on every cell with the \<^verbatim>\<open>OPEN\<close> bit,
  an already revealed mine included. \<^verbatim>\<open>action\<close> compares the state with \<^verbatim>\<open>_OPEN\<close> itself
  (\<^verbatim>\<open>state == _OPEN\<close>), so on the board left by revealing the only cell of a one-cell
  minefield, whose cell is \<^verbatim>\<open>MINE | OPEN\<close>, a second \<^verbatim>\<open>action\<close> on that cell reveals it
  again (it counts it, stores a hint and overwrites \<^verbatim>\<open>last_clicked\<close>), and an \<^verbatim>\<open>action\<close>
  with \<^verbatim>\<open>flag=True\<close> flags it.
\<close>

theorem open_mine_revealed_again:
  "grid (single_mine\<lparr>last_clicked := Some MINE,
                     grid := (grid single_mine)((0, 0) \<mapsto> OPEN_MINE)\<rparr>) (0, 0) = Some OPEN_MINE \<and>
   OPEN_MINE AND OPEN = OPEN \<and>
   action (Suc 0) (single_mine\<lparr>last_clicked := Some MINE,
                     grid := (grid single_mine)((0, 0) \<mapsto> OPEN_MINE)\<rparr>) (0, 0) False =
     Some (Returned (single_mine\<lparr>last_clicked := Some OPEN_MINE,
                       grid := (grid single_mine)((0, 0) \<mapsto> OPEN_MINE),
                       cells_revealed := 1, hints := [(0, 0) \<mapsto> 0]\<rparr>)) \<and>
   action (Suc 0) (single_mine\<lparr>last_clicked := Some MINE,
                     grid := (grid single_mine)((0, 0) \<mapsto> OPEN_MINE)\<rparr>) (0, 0) True =
     Some (Returned (single_mine\<lparr>last_clicked := Some MINE,
                       grid := (grid single_mine)((0, 0) \<mapsto> OPEN_MINE OR FLAGGED)\<rparr>))"
  by (simp add: run_defs)

text \<open>
  C2. The claim says that \<^verbatim>\<open>cells_revealed\<close> never exceeds \<^verbatim>\<open>safe_cells\<close> and counts
  unmined cells only. Two \<^verbatim>\<open>action\<close> calls on the mine of the one-cell minefield leave
  \<^verbatim>\<open>cells_revealed = 1\<close> with \<^verbatim>\<open>safe_cells = 0\<close>: the second call counts the open mine.
\<close>

theorem cells_revealed_exceeds_safe_cells:
  "actions (Suc 0) single_mine [((0, 0), False), ((0, 0), False)] =
     Some (Returned (single_mine\<lparr>last_clicked := Some OPEN_MINE,
                       grid := (grid single_mine)((0, 0) \<mapsto> OPEN_MINE),
                       cells_revealed := 1, hints := [(0, 0) \<mapsto> 0]\<rparr>)) \<and>
   safe_cells single_mine = 0 \<and> grid single_mine (0, 0) = Some MINE"
  by (simp add: run_defs)

text \<open>
  C3. The claim says that \<^verbatim>\<open>hints\<close> never has an entry for a mined cell. After the same
  two calls the mined cell \<open>(0, 0)\<close> has the hint \<open>0\<close>.
\<close>

theorem hint_stored_for_mine:
  "actions (Suc 0) single_mine [((0, 0), False), ((0, 0), False)] =
     Some (Returned (single_mine\<lparr>last_clicked := Some OPEN_MINE,
                       grid := (grid single_mine)((0, 0) \<mapsto> OPEN_MINE),
                       cells_revealed := 1, hints := [(0, 0) \<mapsto> 0]\<rparr>)) \<and>
   OPEN_MINE AND MINE = MINE \<and> hints single_mine = Map.empty"
  by (simp add: run_defs)

text \<open>
  C4, as stated, fails: on the 3x3 board with its only mine in the centre,
  \<^verbatim>\<open>action((0, 0))\<close> opens \<open>(0, 0)\<close> alone and stores its hint alone. The cell has one mined
  neighbour, so \<^verbatim>\<open>reveal\<close> does not call \<^verbatim>\<open>action\<close> on the neighbours: \<open>(2, 2)\<close> is
  still closed and has no hint.
\<close>

theorem center_mine_no_cascade:
  "action (10) center_mine (0, 0) False =
     Some (Returned (center_mine\<lparr>last_clicked := Some SAFE,
                       grid := (grid center_mine)((0, 0) \<mapsto> OPEN),
                       cells_revealed := 1, hints := [(0, 0) \<mapsto> 1]\<rparr>)) \<and>
   ((grid center_mine)((0, 0) \<mapsto> OPEN)) (2, 2) = Some SAFE \<and>
   [(0, 0) \<mapsto> 1] ((2, 2)::pos) = (None::int option)"
  by (simp add: run_defs)

text \<open>
  C4, amended. On that board one call \<^verbatim>\<open>action((0, 0))\<close> gives the board in which
  \<open>(0, 0)\<close> is the only open cell, \<^verbatim>\<open>hints\<close> is \<open>{(0, 0): 1}\<close> and \<^verbatim>\<open>cells_revealed\<close> is
  \<open>1\<close>; it is the eight calls of \<^verbatim>\<open>action\<close>, one on each cell without a mine, that give
  the board in which these eight cells are open and each has the hint \<open>1\<close>.
\<close>

theorem center_mine_revealed:
  "action (10) center_mine (0, 0) False =
     Some (Returned (center_mine\<lparr>last_clicked := Some SAFE,
                       grid := (grid center_mine)((0, 0) \<mapsto> OPEN),
                       cells_revealed := 1, hints := [(0, 0) \<mapsto> 1]\<rparr>)) \<and>
   actions (10) center_mine
     [((0, 0), False), ((1, 0), False), ((2, 0), False), ((0, 1), False),
      ((2, 1), False), ((0, 2), False), ((1, 2), False), ((2, 2), False)] =
     Some (Returned (center_mine\<lparr>last_clicked := Some SAFE,
                       grid := (grid center_mine)((0, 0) \<mapsto> OPEN, (1, 0) \<mapsto> OPEN,
                         (2, 0) \<mapsto> OPEN, (0, 1) \<mapsto> OPEN, (2, 1) \<mapsto> OPEN, (0, 2) \<mapsto> OPEN,
                         (1, 2) \<mapsto> OPEN, (2, 2) \<mapsto> OPEN),
                       cells_revealed := 8,
                       hints := [(0, 0) \<mapsto> 1, (1, 0) \<mapsto> 1, (2, 0) \<mapsto> 1, (0, 1) \<mapsto> 1,
                         (2, 1) \<mapsto> 1, (0, 2) \<mapsto> 1, (1, 2) \<mapsto> 1, (2, 2) \<mapsto> 1]\<rparr>))"
  by (simp add: run_defs)

section \<open>Induction over the calls of \<^verbatim>\<open>action\<close>\<close>

lemma calls_induct:
  fixes P :: "nat \<Rightarrow> board \<Rightarrow> pos \<Rightarrow> bool \<Rightarrow> bool"
    and Q :: "nat \<Rightarrow> board \<Rightarrow> pos \<Rightarrow> int \<Rightarrow> bool"
    and R :: "nat \<Rightarrow> board \<Rightarrow> pos list \<Rightarrow> bool"
  assumes zero: "\<And>b p f. P 0 b p f"
    and act: "\<And>n b p f.
      (\<And>s. grid b p = Some s \<Longrightarrow> s \<noteq> OPEN \<Longrightarrow> \<not> f \<Longrightarrow> s AND FLAGGED \<noteq> FLAGGED \<Longrightarrow> Q n b p s)
      \<Longrightarrow> P (Suc n) b p f"
    and rev: "\<And>n b p s.
      (\<And>v. grid b p = Some v \<Longrightarrow> s \<noteq> MINE \<Longrightarrow>
         mines_nearby (opened b p s v) (get_neighbors b p) = Some 0 \<Longrightarrow>
         R n (hinted b p s v 0) (get_neighbors b p))
      \<Longrightarrow> Q n b p s"
    and nil: "\<And>n b. R n b []"
    and cons: "\<And>n b q qs. P n b q False \<Longrightarrow>
      (\<And>b'. action n b q False = Some (Returned b') \<Longrightarrow> R n b' qs) \<Longrightarrow> R n b (q # qs)"
  shows "P n b p f" and "Q n b p s" and "R n b qs"
proof (induction n b p f and n b p s and n b qs rule: action_reveal_action_each.induct)
  case (1 b position flg)
  show ?case by (rule zero)
next
  case (2 n b position flg)
  show ?case
  proof (rule act)
    fix s
    assume "grid b position = Some s" "s \<noteq> OPEN" "\<not> flg" "s AND FLAGGED \<noteq> FLAGGED"
    then show "Q n b position s" using "2.IH" [of s] by (simp add: getitem_def)
  qed
next
  case (3 n b position state)
  show ?case
  proof (rule rev)
    fix v
    assume v: "grid b position = Some v" and s: "state \<noteq> MINE"
      and k: "mines_nearby (opened b position state v) (get_neighbors b position) = Some 0"
    let ?b1 = "b\<lparr>last_clicked := Some state\<rparr>"
    let ?b2 = "setitem ?b1 position (v OR OPEN)"
    let ?b3 = "?b2\<lparr>cells_revealed := cells_revealed ?b2 + 1\<rparr>"
    have g: "getitem ?b1 position = Some v"
      using v by (simp add: getitem_def)
    have b3: "?b3 = counted b position state v"
      by (simp add: setitem_def counted_def opened_def)
    have m: "mines_nearby ?b3 (get_neighbors ?b3 position) = Some 0"
      unfolding b3 using k by simp
    from "3.IH" [OF refl g refl s refl refl m refl refl]
    have "R n (?b3\<lparr>hints := (hints ?b3)(position \<mapsto> 0)\<rparr>) (get_neighbors ?b3 position)" .
    then show "R n (hinted b position state v 0) (get_neighbors b position)"
      unfolding b3 by (simp add: hinted_def)
  qed
next
  case (4 n b)
  show ?case by (rule nil)
next
  case (5 n b neighbor rest)
  show ?case
  proof (rule cons)
    show "P n b neighbor False" by (rule "5.IH"(1))
  next
    fix b'
    assume "action n b neighbor False = Some (Returned b')"
    then show "R n b' rest" by (rule "5.IH"(2)) simp
  qed
qed

section \<open>What a reveal can change\<close>

lemma unveils_refl [simp]: "unveils b b"
  by (simp add: unveils_def)

lemma unveils_cell:
  "unveils b b' \<Longrightarrow>
   grid b' q = grid b q \<or> (\<exists>v. grid b q = Some v \<and> grid b' q = Some (v OR OPEN))"
  unfolding unveils_def by blast

lemma unveils_trans:
  assumes "unveils a b" "unveils b c"
  shows "unveils a c"
  unfolding unveils_def
proof (intro conjI allI)
  fix q
  note 1 = unveils_cell [OF assms(1), of q] and 2 = unveils_cell [OF assms(2), of q]
  show "grid c q = grid a q \<or> (\<exists>v. grid a q = Some v \<and> grid c q = Some (v OR OPEN))"
  proof (cases "grid b q = grid a q")
    case True
    with 2 show ?thesis by simp
  next
    case False
    with 1 obtain v where v: "grid a q = Some v" "grid b q = Some (v OR OPEN)" by blast
    with 2 have "grid c q = Some (v OR OPEN)" by auto
    with v show ?thesis by simp
  qed
qed (use assms in \<open>simp_all add: unveils_def\<close>)

lemma unveils_fields [simp]:
  "unveils b (b'\<lparr>last_clicked := lc\<rparr>) \<longleftrightarrow> unveils b b'"
  "unveils b (b'\<lparr>cells_revealed := cr\<rparr>) \<longleftrightarrow> unveils b b'"
  "unveils b (b'\<lparr>hints := h\<rparr>) \<longleftrightarrow> unveils b b'"
  by (simp_all add: unveils_def)

lemma unveils_opened:
  "grid b p = Some v \<Longrightarrow> unveils b (opened b p state v)"
  "grid b p = Some v \<Longrightarrow> unveils b (counted b p state v)"
  "grid b p = Some v \<Longrightarrow> unveils b (hinted b p state v k)"
  by (simp_all add: unveils_def)

lemma unveils_dom: "unveils b b' \<Longrightarrow> dom (grid b') = dom (grid b)"
proof -
  assume u: "unveils b b'"
  have "grid b' q = None \<longleftrightarrow> grid b q = None" for q
    using unveils_cell [OF u, of q] by auto
  then show ?thesis by (auto simp add: dom_def)
qed

lemma unveils_MINE_bit:
  assumes "unveils b b'" "grid b q = Some s" "grid b' q = Some s'"
  shows "s' AND MINE = MINE \<longleftrightarrow> s AND MINE = MINE"
proof -
  from assms(1) have "grid b' q = grid b q \<or> (\<exists>v. grid b q = Some v \<and> grid b' q = Some (v OR OPEN))"
    by (rule unveils_cell)
  with assms(2,3) have "s' = s \<or> s' = s OR OPEN" by auto
  then show ?thesis by auto
qed

lemma unveils_defined:
  assumes "unveils b b'"
  shows "grid b' q = None \<longleftrightarrow> grid b q = None"
proof -
  from assms have "grid b' q = grid b q \<or> (\<exists>v. grid b q = Some v \<and> grid b' q = Some (v OR OPEN))"
    by (rule unveils_cell)
  then show ?thesis by auto
qed

lemma unveils_mines_nearby:
  assumes "unveils b b'"
  shows "mines_nearby b' qs = mines_nearby b qs"
proof (rule mines_nearby_cong, intro ballI conjI allI impI)
  fix q
  show "grid b' q = None \<longleftrightarrow> grid b q = None" using assms by (rule unveils_defined)
next
  fix q s s'
  assume "grid b q = Some s" "grid b' q = Some s'"
  with assms show "s' AND MINE = MINE \<longleftrightarrow> s AND MINE = MINE" by (rule unveils_MINE_bit)
qed

lemma unveils_neighbors: "unveils b b' \<Longrightarrow> get_neighbors b' p = get_neighbors b p"
  by (rule get_neighbors_cong) (simp_all add: unveils_def)

lemma unveils_box: "unveils b b' \<Longrightarrow> box b' = box b"
  by (simp add: box_def unveils_def)

lemma unveils_SAFE:
  assumes "unveils b b'" "grid b' q = Some SAFE"
  shows "grid b q = Some SAFE"
proof (cases "grid b' q = grid b q")
  case True
  with assms(2) show ?thesis by simp
next
  case False
  with unveils_cell [OF assms(1), of q] obtain v where "grid b' q = Some (v OR OPEN)" by blast
  with assms(2) have "v OR OPEN = SAFE" by simp
  then show ?thesis by simp
qed

lemma valid_statesD: "valid_states b \<Longrightarrow> grid b p = Some s \<Longrightarrow> valid_state s"
  unfolding valid_states_def by blast

lemma unveils_valid:
  assumes "unveils b b'" "valid_states b"
  shows "valid_states b'"
  unfolding valid_states_def
proof (intro allI impI)
  fix p s
  assume s: "grid b' p = Some s"
  show "valid_state s"
  proof (cases "grid b' p = grid b p")
    case True
    with s have "grid b p = Some s" by simp
    with assms(2) show ?thesis by (rule valid_statesD)
  next
    case False
    with unveils_cell [OF assms(1), of p] obtain v
      where v: "grid b p = Some v" "grid b' p = Some (v OR OPEN)" by blast
    from assms(2) v(1) have "valid_state v" by (rule valid_statesD)
    with v s show ?thesis by (simp add: valid_or_OPEN)
  qed
qed

text \<open>Every call without \<^verbatim>\<open>flag\<close> changes the board by reveals only.\<close>

lemma action_unveils:
  "action n b p f = Some r \<Longrightarrow> \<not> f \<Longrightarrow> unveils b (board_of r)"
  and reveal_unveils: "reveal n b p s = Some r \<Longrightarrow> unveils b (board_of r)"
  and action_each_unveils: "action_each n b qs = Some r \<Longrightarrow> unveils b (board_of r)"
proof (induction n b p f and n b p s and n b qs arbitrary: r and r and r rule: calls_induct)
  case (1 b p f)
  then show ?case by auto
next
  case (2 n b p f)
  show ?case
  proof (cases "grid b p")
    case None
    with 2 show ?thesis by (auto simp add: action_eq)
  next
    case (Some s)
    show ?thesis
    proof (cases "s = OPEN \<or> s AND FLAGGED = FLAGGED")
      case True
      with "2.prems" Some show ?thesis by (auto simp add: action_eq split: if_splits)
    next
      case False
      with "2.prems" Some have "reveal n b p s = Some r" by (simp add: action_eq)
      with "2.IH" [of s r] Some False "2.prems" show ?thesis by simp
    qed
  qed
next
  case (3 n b p s)
  show ?case
  proof (cases "grid b p")
    case None
    with 3 show ?thesis by (auto simp add: reveal_eq unveils_def)
  next
    case (Some v)
    note u = unveils_opened [OF Some]
    show ?thesis
    proof (cases "s = MINE")
      case True
      with "3.prems" Some u show ?thesis by (auto simp add: reveal_eq)
    next
      case False
      show ?thesis
      proof (cases "mines_nearby b (get_neighbors b p)")
        case None
        with "3.prems" Some False u show ?thesis by (auto simp add: reveal_eq)
      next
        case k: (Some k)
        show ?thesis
        proof (cases "k = 0")
          case True
          with "3.prems" Some False k
          have e: "action_each n (hinted b p s v 0) (get_neighbors b p) = Some r"
            by (simp add: reveal_eq)
          from True k Some have "mines_nearby (opened b p s v) (get_neighbors b p) = Some 0"
            by simp
          from "3.IH" [OF Some False this e] have "unveils (hinted b p s v 0) (board_of r)" .
          with u(3) [of s 0] show ?thesis by (rule unveils_trans)
        next
          case nz: False
          with "3.prems" Some False k u show ?thesis by (auto simp add: reveal_eq)
        qed
      qed
    qed
  qed
next
  case (4 n b)
  then show ?case by auto
next
  case (5 n b q qs)
  show ?case
  proof (cases "action n b q False")
    case None
    with "5.prems" show ?thesis by simp
  next
    case (Some r1)
    from "5.IH"(1) [OF Some] have u1: "unveils b (board_of r1)" by simp
    show ?thesis
    proof (cases r1)
      case (Raised e b1)
      with "5.prems" Some u1 show ?thesis by auto
    next
      case (Returned b1)
      with "5.prems" Some have "action_each n b1 qs = Some r" by simp
      with "5.IH"(2) [of b1 r] Some Returned have "unveils b1 (board_of r)" by simp
      with u1 Returned show ?thesis by (auto intro: unveils_trans)
    qed
  qed
qed

section \<open>The keys of the grid\<close>

lemma flag_dom: "dom (grid (board_of (flag b p s))) = dom (grid b)"
proof (cases "grid b p")
  case None
  then show ?thesis by (simp add: flag_def getitem_def)
next
  case (Some v)
  then have "p \<in> dom (grid b)" by auto
  then have "insert p (dom (grid b)) = dom (grid b)" by auto
  then show ?thesis by (simp add: flag_eq [OF Some])
qed

lemma action_dom:
  assumes "action n b p f = Some r"
  shows "dom (grid (board_of r)) = dom (grid b)"
proof (cases f)
  case False
  with assms have "unveils b (board_of r)" by (simp add: action_unveils)
  then show ?thesis by (rule unveils_dom)
next
  case True
  show ?thesis
  proof (cases n)
    case 0
    with assms show ?thesis by simp
  next
    case (Suc m)
    show ?thesis
    proof (cases "grid b p")
      case None
      with assms Suc show ?thesis by (auto simp add: action_eq)
    next
      case (Some s)
      with assms Suc True have "r = Returned b \<or> r = flag b p s"
        by (auto simp add: action_eq split: if_splits)
      then show ?thesis
      proof
        assume "r = Returned b" then show ?thesis by simp
      next
        assume "r = flag b p s" then show ?thesis by (simp only: flag_dom)
      qed
    qed
  qed
qed

lemma actions_dom:
  "actions n b as = Some r \<Longrightarrow> dom (grid (board_of r)) = dom (grid b)"
proof (induction as arbitrary: b)
  case Nil
  then show ?case by auto
next
  case (Cons a as)
  obtain p f where a: "a = (p, f)" by (cases a)
  show ?case
  proof (cases "action n b p f")
    case None
    with Cons.prems a show ?thesis by simp
  next
    case (Some r1)
    note d1 = action_dom [OF Some]
    show ?thesis
    proof (cases r1)
      case (Raised e b1)
      with Cons.prems a Some d1 show ?thesis by auto
    next
      case (Returned b1)
      with Cons.prems a Some have "actions n b1 as = Some r" by simp
      then have "dom (grid (board_of r)) = dom (grid b1)" by (rule Cons.IH)
      with d1 Returned show ?thesis by simp
    qed
  qed
qed

lemma open_mines_dom: "dom (grid (open_mines b)) = dom (grid b)"
  by (auto simp add: open_mines_def dom_def split: option.splits)

lemma set_cells: "set (cells c l) = {0..<c} \<times> {0..<l}"
  by (auto simp add: cells_def)

lemma random_board_dom: "dom (grid (random_board c l ms)) = {0..<c} \<times> {0..<l}"
  by (auto simp add: random_board_def init_def set_cells dom_def)

lemma card_cells: "card ({0..<c} \<times> {0..<l}) = nat c * nat l" for c l :: int
  by (simp add: card_cartesian_product)

text \<open>
  C10. On every board, \<^verbatim>\<open>action\<close> at a position that is not a key of the grid raises
  \<^verbatim>\<open>KeyError\<close> and leaves the board as it was. No operation adds or removes a key:
  whatever \<^verbatim>\<open>action\<close>, \<^verbatim>\<open>reveal\<close> or a sequence of \<^verbatim>\<open>action\<close> calls returns or raises,
  and after \<^verbatim>\<open>flag\<close> and \<^verbatim>\<open>open_mines\<close>, the keys are those of the board before. The keys
  of a board built by \<^verbatim>\<open>random\<close> are the \<open>cols * lines\<close> positions inside the bounds, and
  they stay so along every sequence of \<^verbatim>\<open>action\<close> calls.
\<close>

theorem grid_keys_fixed:
  "(grid b p = None \<longrightarrow> action (Suc n) b p f = Some (Raised KeyError b)) \<and>
   (action n b p f = Some r \<longrightarrow> dom (grid (board_of r)) = dom (grid b)) \<and>
   (reveal n b p s = Some r \<longrightarrow> dom (grid (board_of r)) = dom (grid b)) \<and>
   dom (grid (board_of (flag b p s))) = dom (grid b) \<and>
   dom (grid (open_mines b)) = dom (grid b) \<and>
   dom (grid (random_board c l ms)) = {0..<c} \<times> {0..<l} \<and>
   card ({0..<c} \<times> {0..<l}) = nat c * nat l \<and>
   (actions n (random_board c l ms) as = Some r \<longrightarrow>
      dom (grid (board_of r)) = {0..<c} \<times> {0..<l})"
proof (intro conjI impI)
  assume "grid b p = None"
  then show "action (Suc n) b p f = Some (Raised KeyError b)" by (simp add: action_eq)
next
  assume "action n b p f = Some r"
  then show "dom (grid (board_of r)) = dom (grid b)" by (rule action_dom)
next
  assume "reveal n b p s = Some r"
  then have "unveils b (board_of r)" by (rule reveal_unveils)
  then show "dom (grid (board_of r)) = dom (grid b)" by (rule unveils_dom)
next
  assume "actions n (random_board c l ms) as = Some r"
  then have "dom (grid (board_of r)) = dom (grid (random_board c l ms))" by (rule actions_dom)
  then show "dom (grid (board_of r)) = {0..<c} \<times> {0..<l}" by (simp add: random_board_dom)
qed (simp_all add: flag_dom open_mines_dom random_board_dom card_cells)

theorem grid_keys_fixed_witness:
  "grid single_mine (3, 0) = None \<and>
   action (Suc 0) single_mine (3, 0) True = Some (Raised KeyError single_mine) \<and>
   action (Suc 0) single_mine (0, 0) False = Some (Returned (opened single_mine (0, 0) MINE MINE)) \<and>
   dom (grid (opened single_mine (0, 0) MINE MINE)) = dom (grid single_mine) \<and>
   reveal 0 single_mine (0, 0) MINE = Some (Returned (opened single_mine (0, 0) MINE MINE)) \<and>
   actions (Suc 0) (random_board 1 1 [(0, 0)]) [((0, 0), False)] =
     Some (Returned (opened single_mine (0, 0) MINE MINE)) \<and>
   dom (grid (opened single_mine (0, 0) MINE MINE)) = {0..<1} \<times> {0..<1}"
proof -
  have k: "grid single_mine (3, 0) = None"
    by (simp add: run_defs)
  have a: "action (Suc 0) single_mine (0, 0) False =
      Some (Returned (opened single_mine (0, 0) MINE MINE))"
    by (simp add: run_defs)
  have r: "reveal 0 single_mine (0, 0) MINE = Some (Returned (opened single_mine (0, 0) MINE MINE))"
    by (simp add: run_defs)
  have s: "actions (Suc 0) (random_board 1 1 [(0, 0)]) [((0, 0), False)] =
      Some (Returned (opened single_mine (0, 0) MINE MINE))"
    using a by (simp add: single_mine_def)
  from grid_keys_fixed [of single_mine "(3, 0)" 0 True "Raised KeyError single_mine" MINE
      1 1 "[(0, 0)]" "[]"] k
  have 1: "action (Suc 0) single_mine (3, 0) True = Some (Raised KeyError single_mine)"
    by blast
  from grid_keys_fixed [of single_mine "(0, 0)" "Suc 0" False
      "Returned (opened single_mine (0, 0) MINE MINE)" MINE 1 1 "[(0, 0)]" "[((0, 0), False)]"] a s
  have 2: "dom (grid (opened single_mine (0, 0) MINE MINE)) = dom (grid single_mine)"
    and 3: "dom (grid (opened single_mine (0, 0) MINE MINE)) = {0..<1} \<times> {0..<1}"
    unfolding board_of.simps by blast+
  from grid_keys_fixed [of single_mine "(0, 0)" 0 False
      "Returned (opened single_mine (0, 0) MINE MINE)" MINE 1 1 "[(0, 0)]" "[]"] r
  have "dom (grid (opened single_mine (0, 0) MINE MINE)) = dom (grid single_mine)"
    unfolding board_of.simps by blast
  with k a r s 1 2 3 show ?thesis by blast
qed

section \<open>The loss signal \<^verbatim>\<open>last_clicked\<close>\<close>

lemma signal_kept_refl [simp]: "signal_kept b b"
  by (simp add: signal_kept_def)

lemma signal_kept_trans: "signal_kept a b \<Longrightarrow> signal_kept b c \<Longrightarrow> signal_kept a c"
  unfolding signal_kept_def by auto

lemma signal_kept_set:
  "last_clicked b' = Some t \<Longrightarrow> t AND MINE \<noteq> MINE \<Longrightarrow> signal_kept b b'"
  by (simp add: signal_kept_def)

lemma signal_kept_after:
  "last_clicked a = Some t \<Longrightarrow> t AND MINE \<noteq> MINE \<Longrightarrow> signal_kept a c \<Longrightarrow> signal_kept b c"
  unfolding signal_kept_def by auto

lemma unveils_no_MINE:
  assumes "unveils b b'" "\<forall>q \<in> set qs. \<forall>s. grid b q = Some s \<longrightarrow> s AND MINE \<noteq> MINE"
  shows "\<forall>q \<in> set qs. \<forall>s. grid b' q = Some s \<longrightarrow> s AND MINE \<noteq> MINE"
proof (intro ballI allI impI)
  fix q s'
  assume q: "q \<in> set qs" and s': "grid b' q = Some s'"
  from unveils_defined [OF assms(1), of q] s' obtain s where s: "grid b q = Some s" by auto
  with assms(2) q have "s AND MINE \<noteq> MINE" by blast
  with unveils_MINE_bit [OF assms(1) s s'] show "s' AND MINE \<noteq> MINE" by simp
qed

lemma action_signal_kept:
  "action n b p f = Some r \<Longrightarrow> \<not> f \<Longrightarrow> \<forall>s. grid b p = Some s \<longrightarrow> s AND MINE \<noteq> MINE \<Longrightarrow>
     signal_kept b (board_of r)"
  and reveal_signal_kept:
  "reveal n b p s = Some r \<Longrightarrow> s AND MINE \<noteq> MINE \<Longrightarrow> signal_kept b (board_of r)"
  and action_each_signal_kept:
  "action_each n b qs = Some r \<Longrightarrow>
     \<forall>q \<in> set qs. \<forall>s. grid b q = Some s \<longrightarrow> s AND MINE \<noteq> MINE \<Longrightarrow>
     signal_kept b (board_of r)"
proof (induction n b p f and n b p s and n b qs arbitrary: r and r and r rule: calls_induct)
  case (1 b p f)
  then show ?case by auto
next
  case (2 n b p f)
  show ?case
  proof (cases "grid b p")
    case None
    with "2.prems" show ?thesis by (auto simp add: action_eq)
  next
    case (Some s)
    show ?thesis
    proof (cases "s = OPEN \<or> s AND FLAGGED = FLAGGED")
      case True
      with "2.prems" Some show ?thesis by (auto simp add: action_eq split: if_splits)
    next
      case False
      with "2.prems" Some have "reveal n b p s = Some r" by (simp add: action_eq)
      moreover from "2.prems" Some have "s AND MINE \<noteq> MINE" by simp
      ultimately show ?thesis using "2.IH" [of s r] Some False "2.prems" by simp
    qed
  qed
next
  case (3 n b p s)
  note nm = \<open>s AND MINE \<noteq> MINE\<close>
  show ?case
  proof (cases "grid b p")
    case None
    with "3.prems" have "r = Raised KeyError (b\<lparr>last_clicked := Some s\<rparr>)"
      by (auto simp add: reveal_eq)
    with nm show ?thesis by (simp add: signal_kept_def)
  next
    case (Some v)
    from nm have ns: "s \<noteq> MINE" by (rule not_MINE_bit_not_MINE)
    show ?thesis
    proof (cases "mines_nearby b (get_neighbors b p)")
      case None
      with "3.prems" Some ns have "r = Raised KeyError (counted b p s v)"
        by (auto simp add: reveal_eq)
      with nm show ?thesis by (simp add: signal_kept_def)
    next
      case k: (Some k)
      show ?thesis
      proof (cases "k = 0")
        case False
        with "3.prems" Some ns k have "r = Returned (hinted b p s v k)"
          by (auto simp add: reveal_eq)
        with nm show ?thesis by (simp add: signal_kept_def)
      next
        case True
        with "3.prems" Some ns k
        have e: "action_each n (hinted b p s v 0) (get_neighbors b p) = Some r"
          by (simp add: reveal_eq)
        from True k Some have z: "mines_nearby (opened b p s v) (get_neighbors b p) = Some 0"
          by simp
        have "\<forall>q \<in> set (get_neighbors b p). \<forall>s'. grid (hinted b p s v 0) q = Some s' \<longrightarrow>
            s' AND MINE \<noteq> MINE"
        proof (intro ballI allI impI)
          fix q s'
          assume "q \<in> set (get_neighbors b p)" "grid (hinted b p s v 0) q = Some s'"
          with mines_nearby_zero [OF z, of q] show "s' AND MINE \<noteq> MINE" by auto
        qed
        from "3.IH" [OF Some ns z e this] have "signal_kept (hinted b p s v 0) (board_of r)" .
        with nm show ?thesis by (auto simp add: signal_kept_def)
      qed
    qed
  qed
next
  case (4 n b)
  then show ?case by auto
next
  case (5 n b q qs)
  from "5.prems"(2) have q: "\<forall>s. grid b q = Some s \<longrightarrow> s AND MINE \<noteq> MINE"
    and qs: "\<forall>q \<in> set qs. \<forall>s. grid b q = Some s \<longrightarrow> s AND MINE \<noteq> MINE"
    by simp_all
  show ?case
  proof (cases "action n b q False")
    case None
    with "5.prems" show ?thesis by simp
  next
    case (Some r1)
    from "5.IH"(1) [OF Some _ q] have k1: "signal_kept b (board_of r1)" by simp
    from Some have u1: "unveils b (board_of r1)" by (simp add: action_unveils)
    show ?thesis
    proof (cases r1)
      case (Raised e b1)
      with "5.prems" Some k1 show ?thesis by auto
    next
      case (Returned b1)
      with "5.prems" Some have e: "action_each n b1 qs = Some r" by simp
      from u1 Returned have "unveils b b1" by simp
      then have "\<forall>q \<in> set qs. \<forall>s. grid b1 q = Some s \<longrightarrow> s AND MINE \<noteq> MINE"
        using qs by (rule unveils_no_MINE)
      with "5.IH"(2) [of b1 r] Some Returned e have "signal_kept b1 (board_of r)" by simp
      with k1 Returned show ?thesis by (auto intro: signal_kept_trans)
    qed
  qed
qed

text \<open>
  C9, as stated, fails: \<^verbatim>\<open>action\<close> on an open or flagged cell returns without assigning
  \<^verbatim>\<open>last_clicked\<close>. On the 2x1 board with its mine at \<open>(0, 0)\<close>, after \<open>(1, 0)\<close> and then the
  mine have been revealed, \<^verbatim>\<open>action((1, 0))\<close> on the open unmined cell \<open>(1, 0)\<close> returns with
  \<^verbatim>\<open>last_clicked\<close> still \<^verbatim>\<open>MINE\<close>.
\<close>

theorem stale_loss_signal:
  "actions 1 pair_mine [((1, 0), False), ((0, 0), False)] =
     Some (Returned (pair_mine\<lparr>grid := (grid pair_mine)((1, 0) \<mapsto> OPEN, (0, 0) \<mapsto> OPEN_MINE),
                                hints := [(1, 0) \<mapsto> 1], last_clicked := Some MINE,
                                cells_revealed := 1\<rparr>)) \<and>
   OPEN AND MINE \<noteq> MINE \<and>
   action 1 (pair_mine\<lparr>grid := (grid pair_mine)((1, 0) \<mapsto> OPEN, (0, 0) \<mapsto> OPEN_MINE),
                        hints := [(1, 0) \<mapsto> 1], last_clicked := Some MINE,
                        cells_revealed := 1\<rparr>) (1, 0) False =
     Some (Returned (pair_mine\<lparr>grid := (grid pair_mine)((1, 0) \<mapsto> OPEN, (0, 0) \<mapsto> OPEN_MINE),
                                hints := [(1, 0) \<mapsto> 1], last_clicked := Some MINE,
                                cells_revealed := 1\<rparr>))"
  by (simp add: run_defs)

text \<open>
  C9, amended. On every board, when \<^verbatim>\<open>action(p)\<close> on a position without the \<^verbatim>\<open>MINE\<close> bit
  returns (or raises), \<^verbatim>\<open>last_clicked\<close> is what it was before the call or a state without
  the \<^verbatim>\<open>MINE\<close> bit: no reveal of the cascade records a mine. So if \<^verbatim>\<open>last_clicked\<close> was
  not \<^verbatim>\<open>MINE\<close> before the call, it is not \<^verbatim>\<open>MINE\<close> after it.
\<close>

theorem cascade_records_no_mine:
  assumes "grid b p = Some s" "s AND MINE \<noteq> MINE" "action n b p False = Some r"
  shows "(last_clicked (board_of r) = last_clicked b \<or>
          (\<exists>t. last_clicked (board_of r) = Some t \<and> t AND MINE \<noteq> MINE)) \<and>
         (last_clicked b \<noteq> Some MINE \<longrightarrow> last_clicked (board_of r) \<noteq> Some MINE)"
proof -
  from assms have "signal_kept b (board_of r)" by (simp add: action_signal_kept)
  then show ?thesis by (auto simp add: signal_kept_def)
qed

theorem cascade_records_no_mine_witness:
  "grid row_mine (0, 0) = Some SAFE \<and> SAFE AND MINE \<noteq> MINE \<and>
   action 10 row_mine (0, 0) False =
     Some (Returned (row_mine\<lparr>grid := (grid row_mine)((0, 0) \<mapsto> OPEN, (1, 0) \<mapsto> OPEN,
                                 (2, 0) \<mapsto> OPEN, (3, 0) \<mapsto> OPEN),
                               hints := [(0, 0) \<mapsto> 0, (1, 0) \<mapsto> 0, (2, 0) \<mapsto> 0, (3, 0) \<mapsto> 1],
                               last_clicked := Some SAFE, cells_revealed := 4\<rparr>)) \<and>
   last_clicked row_mine \<noteq> Some MINE \<and>
   last_clicked (row_mine\<lparr>grid := (grid row_mine)((0, 0) \<mapsto> OPEN, (1, 0) \<mapsto> OPEN,
                                 (2, 0) \<mapsto> OPEN, (3, 0) \<mapsto> OPEN),
                               hints := [(0, 0) \<mapsto> 0, (1, 0) \<mapsto> 0, (2, 0) \<mapsto> 0, (3, 0) \<mapsto> 1],
                               last_clicked := Some SAFE, cells_revealed := 4\<rparr>) \<noteq> Some MINE"
proof -
  let ?r = "row_mine\<lparr>grid := (grid row_mine)((0, 0) \<mapsto> OPEN, (1, 0) \<mapsto> OPEN,
                                 (2, 0) \<mapsto> OPEN, (3, 0) \<mapsto> OPEN),
                               hints := [(0, 0) \<mapsto> 0, (1, 0) \<mapsto> 0, (2, 0) \<mapsto> 0, (3, 0) \<mapsto> 1],
                               last_clicked := Some SAFE, cells_revealed := 4\<rparr>"
  have g: "grid row_mine (0, 0) = Some SAFE" by (simp add: run_defs)
  have m: "SAFE AND MINE \<noteq> MINE" by (simp add: flag_defs)
  have a: "action 10 row_mine (0, 0) False = Some (Returned ?r)" by (simp add: run_defs)
  have l: "last_clicked row_mine \<noteq> Some MINE" by (simp add: run_defs)
  from cascade_records_no_mine [OF g m a] l
  have "last_clicked ?r \<noteq> Some MINE" unfolding board_of.simps by blast
  with g m a l show ?thesis by blast
qed

section \<open>Termination of the flood fill\<close>

text \<open>A deeper bound on the nesting does not change what a call returns.\<close>

lemma action_fuel_mono:
  "action n b p f = Some r \<Longrightarrow> n \<le> m \<Longrightarrow> action m b p f = Some r"
  and reveal_fuel_mono:
  "reveal n b p s = Some r \<Longrightarrow> n \<le> m \<Longrightarrow> reveal m b p s = Some r"
  and action_each_fuel_mono:
  "action_each n b qs = Some r \<Longrightarrow> n \<le> m \<Longrightarrow> action_each m b qs = Some r"
proof (induction n b p f and n b p s and n b qs arbitrary: r m and r m and r m rule: calls_induct)
  case (1 b p f)
  then show ?case by simp
next
  case (2 n b p f)
  from "2.prems"(2) obtain m' where m: "m = Suc m'" and le: "n \<le> m'"
    by (cases m) simp_all
  show ?case
  proof (cases "grid b p")
    case None
    with "2.prems" m show ?thesis by (simp add: action_eq)
  next
    case (Some s)
    show ?thesis
    proof (cases "s = OPEN \<or> f \<or> s AND FLAGGED = FLAGGED")
      case True
      with "2.prems" Some m show ?thesis by (auto simp add: action_eq split: if_splits)
    next
      case False
      with "2.prems" Some have "reveal n b p s = Some r" by (simp add: action_eq)
      with "2.IH" [of s r m'] Some False le have "reveal m' b p s = Some r" by simp
      with Some False m show ?thesis by (simp add: action_eq)
    qed
  qed
next
  case (3 n b p s)
  show ?case
  proof (cases "grid b p")
    case None
    with "3.prems" show ?thesis by (simp add: reveal_eq)
  next
    case (Some v)
    show ?thesis
    proof (cases "s \<noteq> MINE \<and> mines_nearby b (get_neighbors b p) = Some 0")
      case False
      with "3.prems" Some show ?thesis
        by (auto simp add: reveal_eq split: option.splits if_splits)
    next
      case True
      with "3.prems" Some
      have e: "action_each n (hinted b p s v 0) (get_neighbors b p) = Some r"
        by (simp add: reveal_eq)
      from True Some have z: "mines_nearby (opened b p s v) (get_neighbors b p) = Some 0"
        by simp
      from True have ns: "s \<noteq> MINE" by simp
      from "3.IH" [OF Some ns z e "3.prems"(2)]
      have "action_each m (hinted b p s v 0) (get_neighbors b p) = Some r" .
      with True Some show ?thesis by (simp add: reveal_eq)
    qed
  qed
next
  case (4 n b)
  then show ?case by simp
next
  case (5 n b q qs)
  show ?case
  proof (cases "action n b q False")
    case None
    with "5.prems" show ?thesis by simp
  next
    case (Some r1)
    from "5.IH"(1) [OF Some "5.prems"(2)] have a: "action m b q False = Some r1" .
    show ?thesis
    proof (cases r1)
      case (Raised e b1)
      with "5.prems" Some a show ?thesis by auto
    next
      case (Returned b1)
      with "5.prems" Some have "action_each n b1 qs = Some r" by simp
      with "5.IH"(2) [of b1 r m] Some Returned "5.prems"(2)
      have "action_each m b1 qs = Some r" by simp
      with a Returned show ?thesis by simp
    qed
  qed
qed

lemma finite_box [simp]: "finite (box b)"
  by (simp add: box_def)

lemma finite_closed_safe [simp]: "finite (closed_safe b)"
  by (rule finite_subset [of _ "box b"]) (auto simp add: closed_safe_def)

lemma card_closed_safe: "card (closed_safe b) \<le> nat (cols b * lines b)"
proof -
  have "card (closed_safe b) \<le> card (box b)"
    by (rule card_mono) (auto simp add: closed_safe_def)
  also have "card (box b) = nat (cols b) * nat (lines b)"
    by (simp add: box_def card_cartesian_product)
  also have "\<dots> \<le> nat (cols b * lines b)"
  proof (cases "0 \<le> cols b")
    case True
    then show ?thesis by (simp add: nat_mult_distrib)
  next
    case False
    then show ?thesis by simp
  qed
  finally show ?thesis .
qed

lemma unveils_closed_safe:
  assumes "unveils b b'"
  shows "card (closed_safe b') \<le> card (closed_safe b)"
proof (rule card_mono)
  show "closed_safe b' \<subseteq> closed_safe b"
    using unveils_SAFE [OF assms] unveils_box [OF assms] by (auto simp add: closed_safe_def)
qed simp

lemma closed_safe_opened:
  assumes "p \<in> box b" "grid b p = Some SAFE"
  shows "card (closed_safe (hinted b p state v k)) < card (closed_safe b)"
proof (rule psubset_card_mono)
  have "p \<in> closed_safe b" using assms by (simp add: closed_safe_def)
  moreover have "p \<notin> closed_safe (hinted b p state v k)"
    by (simp add: closed_safe_def)
  moreover have "closed_safe (hinted b p state v k) \<subseteq> closed_safe b"
    by (auto simp add: closed_safe_def box_def split: if_splits)
  ultimately show "closed_safe (hinted b p state v k) \<subset> closed_safe b" by blast
qed simp

text \<open>
  The loop over the neighbours returns when every call of \<^verbatim>\<open>action\<close> in it does.
\<close>

lemma action_each_returns:
  assumes H: "\<And>b p. valid_states b \<Longrightarrow> p \<in> box b \<Longrightarrow>
      \<forall>s. grid b p = Some s \<longrightarrow> s AND MINE \<noteq> MINE \<Longrightarrow> card (closed_safe b) < n \<Longrightarrow>
      \<exists>r. action n b p False = Some r"
  shows "valid_states b \<Longrightarrow> set qs \<subseteq> box b \<Longrightarrow>
      \<forall>q \<in> set qs. \<forall>s. grid b q = Some s \<longrightarrow> s AND MINE \<noteq> MINE \<Longrightarrow>
      card (closed_safe b) < n \<Longrightarrow> \<exists>r. action_each n b qs = Some r"
proof (induction qs arbitrary: b)
  case Nil
  show ?case by simp
next
  case (Cons q qs)
  from Cons.prems have "\<exists>r. action n b q False = Some r" by (intro H) simp_all
  then obtain r1 where r1: "action n b q False = Some r1" ..
  show ?case
  proof (cases r1)
    case (Raised e b1)
    with r1 show ?thesis by simp
  next
    case (Returned b1)
    with r1 have u: "unveils b b1" using action_unveils [OF r1] by simp
    have "\<exists>r. action_each n b1 qs = Some r"
    proof (rule Cons.IH)
      show "valid_states b1" using u Cons.prems(1) by (rule unveils_valid)
      show "set qs \<subseteq> box b1" using Cons.prems(2) unveils_box [OF u] by simp
      from Cons.prems(3) have "\<forall>q \<in> set qs. \<forall>s. grid b q = Some s \<longrightarrow> s AND MINE \<noteq> MINE"
        by simp
      with u show "\<forall>q \<in> set qs. \<forall>s. grid b1 q = Some s \<longrightarrow> s AND MINE \<noteq> MINE"
        by (rule unveils_no_MINE)
      from unveils_closed_safe [OF u] Cons.prems(4) show "card (closed_safe b1) < n" by simp
    qed
    with r1 Returned show ?thesis by simp
  qed
qed

lemma neighbors_no_MINE:
  assumes "mines_nearby (opened b p state v) (get_neighbors b p) = Some 0"
  shows "\<forall>q \<in> set (get_neighbors b p). \<forall>s. grid (hinted b p state v k) q = Some s \<longrightarrow>
           s AND MINE \<noteq> MINE"
proof (intro ballI allI impI)
  fix q s
  assume "q \<in> set (get_neighbors b p)" "grid (hinted b p state v k) q = Some s"
  with mines_nearby_zero [OF assms, of q] show "s AND MINE \<noteq> MINE" by auto
qed

lemma safe_action_returns:
  "valid_states b \<Longrightarrow> p \<in> box b \<Longrightarrow> \<forall>s. grid b p = Some s \<longrightarrow> s AND MINE \<noteq> MINE \<Longrightarrow>
   card (closed_safe b) < n \<Longrightarrow> \<exists>r. action n b p False = Some r"
proof (induction n arbitrary: b p)
  case 0
  then show ?case by simp
next
  case (Suc n)
  show ?case
  proof (cases "grid b p")
    case None
    then show ?thesis by (simp add: action_eq)
  next
    case (Some s)
    show ?thesis
    proof (cases "s = OPEN \<or> s AND FLAGGED = FLAGGED")
      case True
      with Some show ?thesis by (auto simp add: action_eq)
    next
      case False
      from Suc.prems(1) Some have "valid_state s" by (rule valid_statesD)
      moreover from Suc.prems(3) Some have "s AND MINE \<noteq> MINE" by simp
      ultimately have s: "s = SAFE" using False by (intro revealed_state_SAFE) simp_all
      have "\<exists>r. reveal n b p SAFE = Some r"
      proof (cases "mines_nearby b (get_neighbors b p) = Some 0")
        case False
        with Some s show ?thesis
          by (auto simp add: reveal_eq split: option.splits)
      next
        case True
        with Some s have z: "mines_nearby (opened b p SAFE SAFE) (get_neighbors b p) = Some 0"
          by simp
        from Some s have u: "unveils b (hinted b p SAFE SAFE 0)" by (simp add: unveils_opened)
        have "\<exists>r. action_each n (hinted b p SAFE SAFE 0) (get_neighbors b p) = Some r"
        proof (rule action_each_returns)
          fix b' :: board and p' :: pos
          assume "valid_states b'" "p' \<in> box b'"
            "\<forall>s. grid b' p' = Some s \<longrightarrow> s AND MINE \<noteq> MINE" "card (closed_safe b') < n"
          then show "\<exists>r. action n b' p' False = Some r" by (rule Suc.IH)
        next
          show "valid_states (hinted b p SAFE SAFE 0)" using u Suc.prems(1) by (rule unveils_valid)
          show "set (get_neighbors b p) \<subseteq> box (hinted b p SAFE SAFE 0)"
            using get_neighbors_box [of b p] by (simp add: box_def)
          show "\<forall>q \<in> set (get_neighbors b p). \<forall>s. grid (hinted b p SAFE SAFE 0) q = Some s \<longrightarrow>
              s AND MINE \<noteq> MINE"
            using z by (rule neighbors_no_MINE)
          from Some s have "card (closed_safe (hinted b p SAFE SAFE 0)) < card (closed_safe b)"
            using Suc.prems(2) by (intro closed_safe_opened) simp_all
          with Suc.prems(4) show "card (closed_safe (hinted b p SAFE SAFE 0)) < n" by simp
        qed
        with True Some s show ?thesis by (simp add: reveal_eq flag_defs)
      qed
      with Some False s show ?thesis by (simp add: action_eq)
    qed
  qed
qed

lemma action_returns:
  assumes "valid_states b" "card (closed_safe b) < n"
  shows "\<exists>r. action (Suc n) b p f = Some r"
proof (cases "grid b p")
  case None
  then show ?thesis by (simp add: action_eq)
next
  case (Some s)
  show ?thesis
  proof (cases "s = OPEN \<or> f \<or> s AND FLAGGED = FLAGGED")
    case True
    with Some show ?thesis by (auto simp add: action_eq)
  next
    case False
    have "\<exists>r. reveal n b p s = Some r"
    proof (cases "s \<noteq> MINE \<and> mines_nearby b (get_neighbors b p) = Some 0")
      case False
      with Some show ?thesis
        by (auto simp add: reveal_eq split: option.splits)
    next
      case True
      with Some have z: "mines_nearby (opened b p s s) (get_neighbors b p) = Some 0"
        by simp
      from Some have u: "unveils b (hinted b p s s 0)" by (simp add: unveils_opened)
      have "\<exists>r. action_each n (hinted b p s s 0) (get_neighbors b p) = Some r"
      proof (rule action_each_returns)
        fix b' :: board and p' :: pos
        assume "valid_states b'" "p' \<in> box b'"
          "\<forall>s. grid b' p' = Some s \<longrightarrow> s AND MINE \<noteq> MINE" "card (closed_safe b') < n"
        then show "\<exists>r. action n b' p' False = Some r" by (rule safe_action_returns)
      next
        show "valid_states (hinted b p s s 0)" using u assms(1) by (rule unveils_valid)
        show "set (get_neighbors b p) \<subseteq> box (hinted b p s s 0)"
          using get_neighbors_box [of b p] by (simp add: box_def)
        show "\<forall>q \<in> set (get_neighbors b p). \<forall>s'. grid (hinted b p s s 0) q = Some s' \<longrightarrow>
            s' AND MINE \<noteq> MINE"
          using z by (rule neighbors_no_MINE)
        from unveils_closed_safe [OF u] assms(2)
        show "card (closed_safe (hinted b p s s 0)) < n" by simp
      qed
      with True Some show ?thesis by (simp add: reveal_eq)
    qed
    with Some False show ?thesis by (simp add: action_eq)
  qed
qed

text \<open>Every board that the program builds and plays on has valid cell states.\<close>

lemma valid_toggle:
  "valid_state v \<Longrightarrow> valid_state (if s AND FLAGGED = FLAGGED then v XOR FLAGGED else v OR FLAGGED)"
  by (auto simp add: valid_state_iff bit_or_FLAGGED bit_xor_FLAGGED)

lemma flag_valid:
  assumes "valid_states b"
  shows "valid_states (board_of (flag b p s))"
proof (cases "grid b p")
  case None
  with assms show ?thesis by (simp add: flag_def getitem_def)
next
  case (Some v)
  from assms Some have "valid_state v" by (rule valid_statesD)
  then have t: "valid_state (if s AND FLAGGED = FLAGGED then v XOR FLAGGED else v OR FLAGGED)"
    by (rule valid_toggle)
  show ?thesis
    unfolding valid_states_def
  proof (intro allI impI)
    fix q s'
    assume "grid (board_of (flag b p s)) q = Some s'"
    then have "(q = p \<and> s' = (if s AND FLAGGED = FLAGGED then v XOR FLAGGED else v OR FLAGGED))
        \<or> grid b q = Some s'"
      by (auto simp add: flag_eq [OF Some] split: if_splits)
    with t assms show "valid_state s'" by (auto dest: valid_statesD)
  qed
qed

lemma action_valid:
  assumes "action n b p f = Some r" "valid_states b"
  shows "valid_states (board_of r)"
proof (cases f)
  case False
  with assms(1) have "unveils b (board_of r)" by (simp add: action_unveils)
  then show ?thesis using assms(2) by (rule unveils_valid)
next
  case True
  show ?thesis
  proof (cases n)
    case 0
    with assms show ?thesis by simp
  next
    case (Suc m)
    show ?thesis
    proof (cases "grid b p")
      case None
      with assms Suc show ?thesis by (auto simp add: action_eq)
    next
      case (Some s)
      with assms Suc True have "r = Returned b \<or> r = flag b p s"
        by (auto simp add: action_eq split: if_splits)
      then show ?thesis
      proof
        assume "r = Returned b" with assms(2) show ?thesis by simp
      next
        assume "r = flag b p s" with assms(2) show ?thesis by (simp only: flag_valid)
      qed
    qed
  qed
qed

lemma actions_valid:
  "actions n b as = Some r \<Longrightarrow> valid_states b \<Longrightarrow> valid_states (board_of r)"
proof (induction as arbitrary: b)
  case Nil
  then show ?case by auto
next
  case (Cons a as)
  obtain p f where a: "a = (p, f)" by (cases a)
  show ?case
  proof (cases "action n b p f")
    case None
    with Cons.prems a show ?thesis by simp
  next
    case (Some r1)
    note v1 = action_valid [OF Some Cons.prems(2)]
    show ?thesis
    proof (cases r1)
      case (Raised e b1)
      with Cons.prems a Some v1 show ?thesis by auto
    next
      case (Returned b1)
      with Cons.prems a Some have "actions n b1 as = Some r" by simp
      moreover from v1 Returned have "valid_states b1" by simp
      ultimately show ?thesis by (rule Cons.IH)
    qed
  qed
qed

lemma random_board_valid: "valid_states (random_board c l ms)"
  by (auto simp add: valid_states_def random_board_def init_def valid_state_def flag_defs
      split: if_splits)

text \<open>
  C8. On every board whose cell states are bit sets over the three flags, and so on
  every board reached from \<^verbatim>\<open>random\<close> by \<^verbatim>\<open>action\<close> calls, \<^verbatim>\<open>action(p, flag)\<close> ends for
  every position and flag, by returning or by raising \<^verbatim>\<open>KeyError\<close>: a nesting depth
  of \<open>cols * lines + 2\<close> calls suffices, and every larger bound gives the same outcome.
\<close>

theorem action_terminates:
  "(valid_states b \<longrightarrow>
      (\<exists>r. \<forall>m. nat (cols b * lines b) + 2 \<le> m \<longrightarrow> action m b p f = Some r)) \<and>
   (actions n (random_board c l ms) as = Some r0 \<longrightarrow> valid_states (board_of r0))"
proof (intro conjI impI)
  assume v: "valid_states b"
  have "card (closed_safe b) < nat (cols b * lines b) + 1"
    using card_closed_safe [of b] by simp
  with v have "\<exists>r. action (Suc (nat (cols b * lines b) + 1)) b p f = Some r"
    by (rule action_returns)
  then obtain r where r: "action (nat (cols b * lines b) + 2) b p f = Some r" by auto
  have "\<forall>m. nat (cols b * lines b) + 2 \<le> m \<longrightarrow> action m b p f = Some r"
    using action_fuel_mono [OF r] by blast
  then show "\<exists>r. \<forall>m. nat (cols b * lines b) + 2 \<le> m \<longrightarrow> action m b p f = Some r" ..
next
  assume "actions n (random_board c l ms) as = Some r0"
  then show "valid_states (board_of r0)" using random_board_valid by (rule actions_valid)
qed

theorem action_terminates_witness:
  "valid_states row_mine \<and>
   (\<exists>r. \<forall>m. nat (cols row_mine * lines row_mine) + 2 \<le> m \<longrightarrow>
          action m row_mine (0, 0) False = Some r) \<and>
   nat (cols row_mine * lines row_mine) + 2 \<le> 10 \<and>
   action 10 row_mine (0, 0) False =
     Some (Returned (row_mine\<lparr>grid := (grid row_mine)((0, 0) \<mapsto> OPEN, (1, 0) \<mapsto> OPEN,
                                 (2, 0) \<mapsto> OPEN, (3, 0) \<mapsto> OPEN),
                               hints := [(0, 0) \<mapsto> 0, (1, 0) \<mapsto> 0, (2, 0) \<mapsto> 0, (3, 0) \<mapsto> 1],
                               last_clicked := Some SAFE, cells_revealed := 4\<rparr>)) \<and>
   actions 1 (random_board 5 1 [(4, 0)]) [((3, 0), True)] =
     Some (Returned (row_mine\<lparr>grid := (grid row_mine)((3, 0) \<mapsto> FLAGGED)\<rparr>)) \<and>
   valid_states (row_mine\<lparr>grid := (grid row_mine)((3, 0) \<mapsto> FLAGGED)\<rparr>)"
proof -
  have s: "actions 1 (random_board 5 1 [(4, 0)]) [((3, 0), True)] =
      Some (Returned (row_mine\<lparr>grid := (grid row_mine)((3, 0) \<mapsto> FLAGGED)\<rparr>))"
    by (simp add: run_defs)
  from action_terminates [of row_mine "(0, 0)" False 1 5 1 "[(4, 0)]" "[((3, 0), True)]"
      "Returned (row_mine\<lparr>grid := (grid row_mine)((3, 0) \<mapsto> FLAGGED)\<rparr>)"] s
  have v': "valid_states (row_mine\<lparr>grid := (grid row_mine)((3, 0) \<mapsto> FLAGGED)\<rparr>)"
    unfolding board_of.simps by blast
  have v: "valid_states row_mine"
    unfolding row_mine_def by (rule random_board_valid)
  from action_terminates [of row_mine "(0, 0)" False 1 5 1 "[(4, 0)]" "[((3, 0), True)]"
      "Returned (row_mine\<lparr>grid := (grid row_mine)((3, 0) \<mapsto> FLAGGED)\<rparr>)"] v
  have t: "\<exists>r. \<forall>m. nat (cols row_mine * lines row_mine) + 2 \<le> m \<longrightarrow>
          action m row_mine (0, 0) False = Some r"
    by blast
  have n: "nat (cols row_mine * lines row_mine) + 2 \<le> 10"
    by (simp add: run_defs)
  have a: "action 10 row_mine (0, 0) False =
     Some (Returned (row_mine\<lparr>grid := (grid row_mine)((0, 0) \<mapsto> OPEN, (1, 0) \<mapsto> OPEN,
                                 (2, 0) \<mapsto> OPEN, (3, 0) \<mapsto> OPEN),
                               hints := [(0, 0) \<mapsto> 0, (1, 0) \<mapsto> 0, (2, 0) \<mapsto> 0, (3, 0) \<mapsto> 1],
                               last_clicked := Some SAFE, cells_revealed := 4\<rparr>))"
    by (simp add: run_defs)
  from v t n a s v' show ?thesis by blast
qed

end
